theory Spec2Isabelle
  imports Main "HOL-Library.Sublist"
begin

section \<open>Characters and the string primitives of the source\<close>

text \<open>
  Python strings are sequences of code points.  The model works on \<^typ>\<open>string\<close>, that is
  on code points below 256; the character classes below are Python's \<open>str.isspace\<close>,
  \<open>\d\<close> and \<open>str.lower\<close> restricted to that range.
\<close>

abbreviation NL :: char where
  "NL \<equiv> CHR 0x0A"

definition py_isspace :: "char \<Rightarrow> bool" where
  "py_isspace c \<longleftrightarrow> (of_char c :: nat) \<in> set [9, 10, 11, 12, 13, 28, 29, 30, 31, 32, 133, 160]"

definition py_isdigit :: "char \<Rightarrow> bool" where
  "py_isdigit c \<longleftrightarrow> 48 \<le> (of_char c :: nat) \<and> (of_char c :: nat) \<le> 57"

definition py_lower_char :: "char \<Rightarrow> char" where
  "py_lower_char c =
     (let n = (of_char c :: nat)
      in if (65 \<le> n \<and> n \<le> 90) \<or> (192 \<le> n \<and> n \<le> 222 \<and> n \<noteq> 215)
         then char_of (n + 32) else c)"

definition py_lower :: "string \<Rightarrow> string" where
  "py_lower s = map py_lower_char s"

text \<open>\<open>str.strip()\<close> with no argument: whitespace is removed at both ends.\<close>

definition py_strip :: "string \<Rightarrow> string" where
  "py_strip s = rev (dropWhile py_isspace (rev (dropWhile py_isspace s)))"

text \<open>\<open>sep.join(xs)\<close>.\<close>

fun py_join :: "string \<Rightarrow> string list \<Rightarrow> string" where
  "py_join sep [] = []"
| "py_join sep [x] = x"
| "py_join sep (x # y # ys) = x @ sep @ py_join sep (y # ys)"

text \<open>\<open>needle in hay\<close> on strings.\<close>

fun py_in :: "string \<Rightarrow> string \<Rightarrow> bool" where
  "py_in needle [] = (needle = [])"
| "py_in needle (c # cs) = (prefix needle (c # cs) \<or> py_in needle cs)"

text \<open>The slice \<open>s[a:b]\<close> for offsets \<open>0 \<le> a\<close>, \<open>0 \<le> b\<close>.\<close>

definition py_slice :: "string \<Rightarrow> nat \<Rightarrow> nat \<Rightarrow> string" where
  "py_slice s a b = take (b - a) (drop a s)"

section \<open>TitleIndexer: \<open>extract_titles_from_toc\<close>\<close>

text \<open>
  One attempt of the pattern \<open>\d+\.\s+(.*)\<close> at the head of the input: a maximal digit run,
  a full stop, a maximal non-empty whitespace run, then everything up to the next line
  break.  The result is the separator run, the captured group and the unread input.
  None of the greedy runs can give a character back to what follows it, so the attempt is
  deterministic.
\<close>

definition toc_match :: "string \<Rightarrow> (string \<times> string \<times> string) option" where
  "toc_match s =
     (if takeWhile py_isdigit s = [] then None
      else case dropWhile py_isdigit s of
             [] \<Rightarrow> None
           | c # r \<Rightarrow>
               if c \<noteq> CHR ''.'' \<or> takeWhile py_isspace r = [] then None
               else Some (takeWhile py_isspace r,
                          takeWhile (\<lambda>x. x \<noteq> NL) (dropWhile py_isspace r),
                          dropWhile (\<lambda>x. x \<noteq> NL) (dropWhile py_isspace r)))"

lemma toc_match_shorter:
  "toc_match s = Some (sep, title, rest) \<Longrightarrow> length rest < length s"
proof -
  assume m: "toc_match s = Some (sep, title, rest)"
  then obtain c r where d: "dropWhile py_isdigit s = c # r"
    and rest: "rest = dropWhile (\<lambda>x. x \<noteq> NL) (dropWhile py_isspace r)"
    by (auto simp: toc_match_def split: if_splits list.splits)
  have "length rest \<le> length r"
    unfolding rest
    by (meson length_dropWhile_le le_trans)
  moreover have "length (c # r) \<le> length s"
    using length_dropWhile_le [of py_isdigit s] by (simp add: d)
  ultimately show ?thesis by simp
qed

text \<open>
  \<open>re.findall(r'^\d+\.\s+(.*)', text, re.MULTILINE)\<close>: the scan moves left to right; the flag
  says whether the current position is the start of the text or follows a line break
  (where \<open>^\<close> holds under \<open>MULTILINE\<close>).  After a match the scan resumes at the match's end.
\<close>

function findall_toc :: "bool \<Rightarrow> string \<Rightarrow> string list" where
  "findall_toc bol s =
     (case (if bol then toc_match s else None) of
        Some (sep, title, rest) \<Rightarrow> title # findall_toc (last (sep @ title) = NL) rest
      | None \<Rightarrow> (case s of [] \<Rightarrow> [] | c # cs \<Rightarrow> findall_toc (c = NL) cs))"
  by pat_completeness auto
termination
  by (relation "measure (\<lambda>(bol, s). length s)")
     (auto split: if_splits dest: toc_match_shorter)

definition extract_titles_from_toc :: "string \<Rightarrow> string list" where
  "extract_titles_from_toc text = findall_toc True text"


text \<open>
  Vocabulary for statements about the indexer: a well-formed table-of-contents line made of
  a digit run, a full stop, a whitespace run and a title, and the suffixes of a text that
  start a line.
\<close>

definition toc_entry_ok :: "string \<times> string \<times> string \<Rightarrow> bool" where
  "toc_entry_ok e =
     (case e of (ds, ws, t) \<Rightarrow>
        ds \<noteq> [] \<and> list_all py_isdigit ds \<and> ws \<noteq> [] \<and> list_all py_isspace ws \<and>
        t \<noteq> [] \<and> \<not> py_isspace (hd t) \<and> NL \<notin> set t)"

definition toc_line :: "string \<times> string \<times> string \<Rightarrow> string" where
  "toc_line e = (case e of (ds, ws, t) \<Rightarrow> ds @ CHR ''.'' # ws @ t @ [NL])"

fun after_nl :: "string \<Rightarrow> string list" where
  "after_nl [] = []"
| "after_nl (c # cs) = (if c = NL then cs # after_nl cs else after_nl cs)"

definition line_starts :: "string \<Rightarrow> string list" where
  "line_starts s = s # after_nl s"

text \<open>
  A text begins with a marker when it begins with a non-empty digit run, a full stop and a
  whitespace character: the form \<open><integer>.<whitespace>\<close>.
\<close>

definition marker_prefix :: "string \<Rightarrow> bool" where
  "marker_prefix s \<longleftrightarrow>
     takeWhile py_isdigit s \<noteq> [] \<and>
     (case dropWhile py_isdigit s of
        c # c' # r \<Rightarrow> c = CHR ''.'' \<and> py_isspace c'
      | _ \<Rightarrow> False)"

text \<open>
  Every text is a sequence of blocks followed by an ending.  A block is a line that does
  not begin with a marker, or an entry: a marker, the rest of its whitespace run (which may
  hold line breaks) and a title that runs to the end of its line.  Both are closed by a
  line break.  The ending is what follows the last closed block: a last line without a
  marker, or a last entry, whose title may be empty.
\<close>

datatype toc_block = Other_Line string | Entry_Line string string string

datatype toc_ending = Other_End string | Entry_End string string string

fun render_block :: "toc_block \<Rightarrow> string" where
  "render_block (Other_Line l) = l @ [NL]"
| "render_block (Entry_Line ds ws t) = ds @ CHR ''.'' # ws @ t @ [NL]"

fun render_ending :: "toc_ending \<Rightarrow> string" where
  "render_ending (Other_End l) = l"
| "render_ending (Entry_End ds ws t) = ds @ CHR ''.'' # ws @ t"

fun block_ok :: "toc_block \<Rightarrow> bool" where
  "block_ok (Other_Line l) \<longleftrightarrow> NL \<notin> set l \<and> \<not> marker_prefix (l @ [NL])"
| "block_ok (Entry_Line ds ws t) \<longleftrightarrow> toc_entry_ok (ds, ws, t)"

fun ending_ok :: "toc_ending \<Rightarrow> bool" where
  "ending_ok (Other_End l) \<longleftrightarrow> NL \<notin> set l \<and> \<not> marker_prefix l"
| "ending_ok (Entry_End ds ws t) \<longleftrightarrow>
     ds \<noteq> [] \<and> list_all py_isdigit ds \<and> ws \<noteq> [] \<and> list_all py_isspace ws \<and>
     NL \<notin> set t \<and> (t = [] \<or> \<not> py_isspace (hd t))"

fun block_titles :: "toc_block \<Rightarrow> string list" where
  "block_titles (Other_Line l) = []"
| "block_titles (Entry_Line ds ws t) = [t]"

fun ending_titles :: "toc_ending \<Rightarrow> string list" where
  "ending_titles (Other_End l) = []"
| "ending_titles (Entry_End ds ws t) = [t]"

definition render_toc :: "toc_block list \<Rightarrow> toc_ending \<Rightarrow> string" where
  "render_toc bs e = concat (map render_block bs) @ render_ending e"

definition toc_titles :: "toc_block list \<Rightarrow> toc_ending \<Rightarrow> string list" where
  "toc_titles bs e = concat (map block_titles bs) @ ending_titles e"

section \<open>TextNormalizer: \<open>clean_text\<close>\<close>

text \<open>
  One attempt of \<open>http[s]?://\S+\<close> at the head of the input; the result is the unread input
  behind the match.  \<open>\S+\<close> is greedy and nothing follows it, so it takes the whole run of
  non-whitespace characters, which must not be empty.
\<close>

definition nonspace_run :: "string \<Rightarrow> string option" where
  "nonspace_run r =
     (if takeWhile (\<lambda>c. \<not> py_isspace c) r = [] then None
      else Some (dropWhile (\<lambda>c. \<not> py_isspace c) r))"

definition url_match :: "string \<Rightarrow> string option" where
  "url_match s =
     (if prefix ''https://'' s then nonspace_run (drop 8 s)
      else if prefix ''http://'' s then nonspace_run (drop 7 s)
      else None)"

lemma url_match_shorter: "url_match s = Some r \<Longrightarrow> length r < length s"
proof -
  have run: "nonspace_run u = Some r \<Longrightarrow> length r \<le> length u" for u
    by (auto simp: nonspace_run_def length_dropWhile_le split: if_splits)
  assume "url_match s = Some r"
  then consider "prefix ''https://'' s" "nonspace_run (drop 8 s) = Some r"
    | "prefix ''http://'' s" "nonspace_run (drop 7 s) = Some r"
    by (auto simp: url_match_def split: if_splits)
  then show ?thesis
  proof cases
    case 1
    then have "8 \<le> length s" "length r \<le> length s - 8"
      using run [of "drop 8 s"] by (auto dest: prefix_length_le)
    then show ?thesis by simp
  next
    case 2
    then have "7 \<le> length s" "length r \<le> length s - 7"
      using run [of "drop 7 s"] by (auto dest: prefix_length_le)
    then show ?thesis by simp
  qed
qed

text \<open>\<open>re.sub(r'http[s]?://\S+', '', text)\<close>: every match, found left to right, is deleted.\<close>

function sub_urls :: "string \<Rightarrow> string" where
  "sub_urls s =
     (case url_match s of
        Some r \<Rightarrow> sub_urls r
      | None \<Rightarrow> (case s of [] \<Rightarrow> [] | c # cs \<Rightarrow> c # sub_urls cs))"
  by pat_completeness auto
termination
  by (relation "measure length") (auto dest: url_match_shorter)

text \<open>\<open>re.sub(r'\s+', ' ', text)\<close>: every maximal whitespace run becomes one space.\<close>

function sub_ws :: "string \<Rightarrow> string" where
  "sub_ws [] = []"
| "sub_ws (c # cs) =
     (if py_isspace c then CHR '' '' # sub_ws (dropWhile py_isspace cs) else c # sub_ws cs)"
  by pat_completeness auto
termination
  by (relation "measure length") (auto simp: length_dropWhile_le less_Suc_eq_le)

definition clean_text :: "string \<Rightarrow> string" where
  "clean_text text = py_strip (sub_ws (sub_urls text))"

text \<open>
  Vocabulary for statements about the normalizer: a text without any URL match, a text whose
  whitespace is already collapsed, and the right half of \<open>strip\<close>.
\<close>

abbreviation nonsp :: "char \<Rightarrow> bool" where
  "nonsp \<equiv> (\<lambda>c. \<not> py_isspace c)"

definition url_free :: "string \<Rightarrow> bool" where
  "url_free s \<longleftrightarrow> (\<forall>u. suffix u s \<longrightarrow> url_match u = None)"

fun ws_normal :: "string \<Rightarrow> bool" where
  "ws_normal [] = True"
| "ws_normal (c # cs) =
     ((py_isspace c \<longrightarrow> c = CHR '' '' \<and> (cs = [] \<or> \<not> py_isspace (hd cs))) \<and> ws_normal cs)"

definition strip_right :: "string \<Rightarrow> string" where
  "strip_right u = rev (dropWhile py_isspace (rev u))"

section \<open>MetadataExtractor: \<open>extract_metadata\<close>\<close>

text \<open>
  Matching a literal under \<open>re.IGNORECASE\<close>: the pattern and the text are compared character
  by character after lowering both.
\<close>

fun prefix_ci :: "string \<Rightarrow> string \<Rightarrow> bool" where
  "prefix_ci [] s = True"
| "prefix_ci (p # ps) [] = False"
| "prefix_ci (p # ps) (c # cs) \<longleftrightarrow> py_lower_char p = py_lower_char c \<and> prefix_ci ps cs"

lemma prefix_ci_length: "prefix_ci pat s \<Longrightarrow> length pat \<le> length s"
  by (induction pat s rule: prefix_ci.induct) auto

text \<open>The class \<open>[:\-\s]\<close> and, under \<open>IGNORECASE\<close>, the class \<open>[A-Za-z,. ]\<close>.\<close>

definition in_sep :: "char \<Rightarrow> bool" where
  "in_sep c \<longleftrightarrow> c = CHR '':'' \<or> c = CHR ''-'' \<or> py_isspace c"

definition in_name :: "char \<Rightarrow> bool" where
  "in_name c \<longleftrightarrow>
     (let n = (of_char c :: nat)
      in (65 \<le> n \<and> n \<le> 90) \<or> (97 \<le> n \<and> n \<le> 122)
         \<or> c = CHR '','' \<or> c = CHR ''.'' \<or> c = CHR '' '')"

text \<open>
  \<open>(?i)(author|by)\s*[:\-\s]*([A-Za-z,. ]+)\<close> attempted at the head of the input; the result
  is group 2.  The two starred items together first take the whole run of separator
  characters and then give characters back one at a time until the next character can
  start group 2: either the character behind the run, or else the last space inside it
  (the only separator that is also a name character), which then is the whole group.
\<close>

definition author_attempt :: "string \<Rightarrow> string option" where
  "author_attempt s =
     (if prefix_ci ''author'' s \<or> prefix_ci ''by'' s then
        (let r = (if prefix_ci ''author'' s then drop 6 s else drop 2 s);
             run = takeWhile in_sep r;
             after = dropWhile in_sep r
         in if after \<noteq> [] \<and> in_name (hd after) then Some (takeWhile in_name after)
            else if CHR '' '' \<in> set run then Some '' ''
            else None)
      else None)"

text \<open>
  \<open>(?i)(publication title|title):?\s*[:\-\s]*(.*?)(?=\n|$)\<close>: the separators are taken
  greedily (the optional colon is a separator itself) and the lazy group stops at the
  first line break or at the end, so the attempt succeeds wherever the keyword is found.
\<close>

definition title_attempt :: "string \<Rightarrow> string option" where
  "title_attempt s =
     (if prefix_ci ''publication title'' s
      then Some (takeWhile (\<lambda>x. x \<noteq> NL) (dropWhile in_sep (drop 17 s)))
      else if prefix_ci ''title'' s
      then Some (takeWhile (\<lambda>x. x \<noteq> NL) (dropWhile in_sep (drop 5 s)))
      else None)"

text \<open>
  \<open>(?i)(date|published):?\s*[:\-\s]*(\d{4}-\d{2}-\d{2})\<close>: group 2 starts with a digit, which
  is no separator, so the separators must be taken whole.
\<close>

definition is_iso_date :: "string \<Rightarrow> bool" where
  "is_iso_date d \<longleftrightarrow>
     length d = 10 \<and> list_all py_isdigit (take 4 d) \<and> d ! 4 = CHR ''-'' \<and>
     list_all py_isdigit (take 2 (drop 5 d)) \<and> d ! 7 = CHR ''-'' \<and>
     list_all py_isdigit (drop 8 d)"

definition date_attempt :: "string \<Rightarrow> string option" where
  "date_attempt s =
     (if prefix_ci ''date'' s \<or> prefix_ci ''published'' s then
        (let r = (if prefix_ci ''date'' s then drop 4 s else drop 9 s);
             d = take 10 (dropWhile in_sep r)
         in if is_iso_date d then Some d else None)
      else None)"

text \<open>\<open>pattern.search(text)\<close>: the first position, from the left, where the attempt succeeds.\<close>

fun re_search :: "(string \<Rightarrow> 'a option) \<Rightarrow> string \<Rightarrow> 'a option" where
  "re_search attempt [] = attempt []"
| "re_search attempt (c # cs) =
     (case attempt (c # cs) of Some g \<Rightarrow> Some g | None \<Rightarrow> re_search attempt cs)"

text \<open>
  The dictionary built by \<open>extract_metadata\<close> has at most the keys \<open>Author\<close>,
  \<open>Publication Title\<close> and \<open>Date\<close>; a field is \<open>None\<close> when its key is absent.
\<close>

record metadata =
  Author :: "string option"
  Publication_Title :: "string option"
  Date :: "string option"

definition extract_metadata :: "string \<Rightarrow> metadata" where
  "extract_metadata text =
     \<lparr> Author = map_option py_strip (re_search author_attempt text),
       Publication_Title = map_option py_strip (re_search title_attempt text),
       Date = map_option py_strip (re_search date_attempt text) \<rparr>"

section \<open>SectionSegmenter: \<open>extract_text_beneath_duplicates\<close>\<close>

text \<open>
  One attempt of \<open>(^|\n) + re.escape(title) + (\n)\<close>, compiled with \<open>IGNORECASE\<close> and
  without \<open>MULTILINE\<close>, at the head of the input; the flag says whether the head is the
  start of the searched string, the only place where \<open>^\<close> holds.  The result is the length
  of the match.  The alternative \<open>^\<close> is tried first.
\<close>

definition title_match :: "bool \<Rightarrow> string \<Rightarrow> string \<Rightarrow> nat option" where
  "title_match bos title s =
     (if bos \<and> prefix_ci (title @ [NL]) s then Some (length title + 1)
      else case s of
             [] \<Rightarrow> None
           | c # cs \<Rightarrow> if c = NL \<and> prefix_ci (title @ [NL]) cs
                       then Some (length title + 2) else None)"

lemma title_match_bounds:
  "title_match bos title s = Some n \<Longrightarrow> 0 < n \<and> n \<le> length s"
  by (auto simp: title_match_def split: if_splits list.splits dest: prefix_ci_length)

text \<open>
  \<open>title_pattern.finditer(s)\<close>: the matches from left to right, each as the pair of its
  start and end offsets in \<open>s\<close>; the scan resumes at the end of a match.
\<close>

function finditer_title :: "bool \<Rightarrow> nat \<Rightarrow> string \<Rightarrow> string \<Rightarrow> (nat \<times> nat) list" where
  "finditer_title bos off title s =
     (case title_match bos title s of
        Some n \<Rightarrow> (off, off + n) # finditer_title False (off + n) title (drop n s)
      | None \<Rightarrow> (case s of [] \<Rightarrow> [] | c # cs \<Rightarrow> finditer_title False (Suc off) title cs))"
  by pat_completeness auto
termination
  by (relation "measure (\<lambda>(bos, off, title, s). length s)")
     (auto dest: title_match_bounds)

definition title_occurrences :: "string \<Rightarrow> string \<Rightarrow> (nat \<times> nat) list" where
  "title_occurrences title content = finditer_title True 0 title content"

text \<open>
  \<open>next((m.start() for m in title_pattern.finditer(content[start_pos:])), None)\<close>: the start
  of the first match in the suffix, as an offset into the suffix.
\<close>

definition next_title_pos :: "string \<Rightarrow> string \<Rightarrow> nat \<Rightarrow> nat option" where
  "next_title_pos title content start_pos =
     (case title_occurrences title (drop start_pos content) of
        [] \<Rightarrow> None
      | m # _ \<Rightarrow> Some (fst m))"

text \<open>
  The span cut out for the occurrence that ends at \<open>start_pos\<close>.  The source tests
  \<open>if next_title_pos\<close>, and Python takes both \<open>None\<close> and \<open>0\<close> for false: in either case the
  span runs to the end of the document.
\<close>

definition section_span :: "string \<Rightarrow> string \<Rightarrow> nat \<Rightarrow> nat \<times> nat" where
  "section_span title content start_pos =
     (case next_title_pos title content start_pos of
        None \<Rightarrow> (start_pos, length content)
      | Some n \<Rightarrow> if n \<noteq> 0 then (start_pos, start_pos + n) else (start_pos, length content))"

definition extracted_text :: "string \<Rightarrow> string \<Rightarrow> nat \<Rightarrow> string" where
  "extracted_text title content start_pos =
     (case section_span title content start_pos of (a, b) \<Rightarrow> py_strip (py_slice content a b))"

type_synonym text_item = "string \<times> string \<times> metadata"

definition make_section :: "string \<Rightarrow> string \<Rightarrow> nat \<times> nat \<Rightarrow> text_item" where
  "make_section title content m =
     (let extracted = extracted_text title content (snd m)
      in (title, clean_text extracted, extract_metadata extracted))"

definition sections_of_title :: "string \<Rightarrow> string \<Rightarrow> text_item list" where
  "sections_of_title content title = map (make_section title content) (title_occurrences title content)"

definition extract_text_beneath_duplicates :: "string \<Rightarrow> string list \<Rightarrow> text_item list" where
  "extract_text_beneath_duplicates content titles = concat (map (sections_of_title content) titles)"

section \<open>SummaryDriver and CorrelationExtractor\<close>

text \<open>
  An exception is its message.  The external summarizer is a function that returns the
  summary text or raises; a call \<open>summarizer(chunk, max_length=200, min_length=50,
  do_sample=False)[0]['summary_text']\<close> is one application of it.  Every function that may
  call the summarizer returns, with its outcome, the list of texts it has passed to the
  summarizer, in order.
\<close>

datatype exn = Exception string

type_synonym summarizer = "string \<Rightarrow> exn + string"

type_synonym 'a traced = "string list \<times> (exn + 'a)"

text \<open>\<open>[text[i:i+max_chunk_size] for i in range(0, len(text), max_chunk_size)]\<close>.\<close>

definition max_chunk_size :: nat where
  "max_chunk_size = 2048"

function chunks_of :: "nat \<Rightarrow> string \<Rightarrow> string list" where
  "chunks_of n s = (if s = [] \<or> n = 0 then [] else take n s # chunks_of n (drop n s))"
  by pat_completeness auto
termination
  by (relation "measure (\<lambda>(n, s). length s)") auto

text \<open>
  The list comprehension over the chunks: the summarizer is called chunk by chunk, and the
  first call that raises ends the comprehension.
\<close>

fun summarize_chunks :: "summarizer \<Rightarrow> string list \<Rightarrow> string list traced" where
  "summarize_chunks summarizer [] = ([], Inr [])"
| "summarize_chunks summarizer (chunk # chunks) =
     (case summarizer chunk of
        Inl e \<Rightarrow> ([chunk], Inl e)
      | Inr summary \<Rightarrow>
          (case summarize_chunks summarizer chunks of
             (calls, Inl e) \<Rightarrow> (chunk # calls, Inl e)
           | (calls, Inr summaries) \<Rightarrow> (chunk # calls, Inr (summary # summaries))))"

definition summarize_text :: "string \<Rightarrow> summarizer \<Rightarrow> string traced" where
  "summarize_text text summarizer =
     (let text = py_strip text
      in if length text < 50 then ([], Inr ''Text too short to summarize'')
         else case summarize_chunks summarizer (chunks_of max_chunk_size text) of
                (calls, Inl e) \<Rightarrow> (calls, Inl e)
              | (calls, Inr summaries) \<Rightarrow> (calls, Inr (py_join '' '' summaries)))"

text \<open>\<open>re.split(r'[.!?]', text)\<close>: the pieces between the terminators, empty pieces included.\<close>

definition is_terminator :: "char \<Rightarrow> bool" where
  "is_terminator c \<longleftrightarrow> c = CHR ''.'' \<or> c = CHR ''!'' \<or> c = CHR ''?''"

fun re_split :: "string \<Rightarrow> string list" where
  "re_split [] = [[]]"
| "re_split (c # cs) =
     (if is_terminator c then [] # re_split cs
      else case re_split cs of
             [] \<Rightarrow> [[c]]
           | piece # pieces \<Rightarrow> (c # piece) # pieces)"

definition mentions_both :: "string \<Rightarrow> bool" where
  "mentions_both s \<longleftrightarrow>
     py_in ''climate change'' (py_lower s) \<and> py_in ''insurance'' (py_lower s)"

definition no_correlation :: string where
  "no_correlation = ''No correlation between climate change and insurance found.''"

definition summarize_climate_insurance_correlation :: "string \<Rightarrow> summarizer \<Rightarrow> string traced" where
  "summarize_climate_insurance_correlation text summarizer =
     (let sentences = re_split text;
          correlation_sentences = map py_strip (filter mentions_both sentences)
      in if correlation_sentences \<noteq> []
         then summarize_text (py_join '' '' correlation_sentences) summarizer
         else ([], Inr no_correlation))"

type_synonym job_result = "string \<times> string \<times> string \<times> string \<times> metadata"

definition process_text_item_in_threads :: "text_item \<Rightarrow> summarizer \<Rightarrow> job_result traced" where
  "process_text_item_in_threads text_data summarizer =
     (case text_data of (title, text, metadata) \<Rightarrow>
        (case summarize_text text summarizer of
           (calls, Inl e) \<Rightarrow> (calls, Inl e)
         | (calls, Inr summary) \<Rightarrow>
             (case summarize_climate_insurance_correlation text summarizer of
                (calls', Inl e) \<Rightarrow> (calls @ calls', Inl e)
              | (calls', Inr correlation) \<Rightarrow>
                  (calls @ calls', Inr (title, text, summary, correlation, metadata)))))"

text \<open>
  The CorrelationExtractor as the specification words it, on the raw body of the section
  (the stripped span of the document, before \<open>clean_text\<close>).
\<close>

definition spec_correlation_on_raw :: "string \<Rightarrow> summarizer \<Rightarrow> string traced" where
  "spec_correlation_on_raw raw_body summarizer =
     summarize_climate_insurance_correlation raw_body summarizer"

section \<open>IncrementalSink and ConcurrentDispatcher\<close>

text \<open>
  The state a batch works on: the data rows of the output file and the messages logged by
  the coordinating thread.  Appending a row is the one external write; \<open>writer\<close> says, for
  the rows already in the file and the row to append, whether \<open>to_csv\<close> raises.
\<close>

datatype level = INFO | WARNING

type_synonym row = "string \<times> string \<times> string \<times> string \<times> string \<times> string \<times> string"

record batch_state =
  csv :: "row list"
  log :: "(level \<times> string) list"

type_synonym writer = "row list \<Rightarrow> row \<Rightarrow> exn option"

definition logging :: "level \<Rightarrow> string \<Rightarrow> batch_state \<Rightarrow> batch_state" where
  "logging lvl msg st = st\<lparr>log := log st @ [(lvl, msg)]\<rparr>"

definition save_to_csv_incremental :: "writer \<Rightarrow> row \<Rightarrow> batch_state \<Rightarrow> exn + batch_state" where
  "save_to_csv_incremental writer data st =
     (case writer (csv st) data of
        Some e \<Rightarrow> Inl e
      | None \<Rightarrow> Inr (logging INFO ''Row appended to CSV.'' (st\<lparr>csv := csv st @ [data]\<rparr>)))"

text \<open>\<open>metadata.get(key, "N/A")\<close>.\<close>

definition get_or_na :: "string option \<Rightarrow> string" where
  "get_or_na v = (case v of Some x \<Rightarrow> x | None \<Rightarrow> ''N/A'')"

text \<open>The tuple \<open>row_data\<close> built from a job's value.\<close>

definition row_data :: "job_result \<Rightarrow> row" where
  "row_data r =
     (case r of (title, text, summary, correlation, metadata) \<Rightarrow>
        (title, text, summary, correlation,
         get_or_na (Author metadata), get_or_na (Publication_Title metadata),
         get_or_na (Date metadata)))"

text \<open>
  The statements inside the inner \<open>try\<close> for one completed future: \<open>future.result()\<close>
  returns the job's value or raises the job's exception, then the row is built and
  appended.
\<close>

definition future_result :: "summarizer \<Rightarrow> text_item \<Rightarrow> exn + job_result" where
  "future_result summarizer text_data = snd (process_text_item_in_threads text_data summarizer)"

definition try_completion ::
  "writer \<Rightarrow> summarizer \<Rightarrow> text_item \<Rightarrow> batch_state \<Rightarrow> exn + batch_state" where
  "try_completion writer summarizer text_data st =
     (case future_result summarizer text_data of
        Inl e \<Rightarrow> Inl e
      | Inr r \<Rightarrow> save_to_csv_incremental writer (row_data r) st)"

text \<open>The inner \<open>try\<close> with its handler \<open>except Exception as e\<close>.\<close>

definition handle_completion ::
  "writer \<Rightarrow> summarizer \<Rightarrow> text_item \<Rightarrow> batch_state \<Rightarrow> batch_state" where
  "handle_completion writer summarizer text_data st =
     (case try_completion writer summarizer text_data st of
        Inl (Exception msg) \<Rightarrow> logging WARNING (''Error processing text: '' @ msg) st
      | Inr st' \<Rightarrow> st')"

text \<open>
  What the iterator \<open>as_completed(future_to_text, timeout=TIMEOUT)\<close> does next is given by
  a trace of events: the future of the job with a given index is yielded, or the iterator
  finds the deadline passed.  The loop keeps the futures not yet yielded.  It ends when
  none is left; when the deadline has passed while some are left, the iterator raises
  \<open>TimeoutError\<close> and the outer handler logs the notice; later events are never read.  A
  trace that ends with futures left and no deadline, or that yields a future twice or an
  unknown future, describes no run of the iterator: the result is \<open>None\<close>.
\<close>

datatype event = Completed nat | DeadlinePassed

definition timeout_notice :: "level \<times> string" where
  "timeout_notice = (WARNING, ''Time limit exceeded. Saving available results.'')"

fun drain ::
  "(nat \<Rightarrow> batch_state \<Rightarrow> batch_state) \<Rightarrow> nat list \<Rightarrow> event list \<Rightarrow> batch_state
   \<Rightarrow> batch_state option" where
  "drain body [] evs st = Some st"
| "drain body (p # ps) [] st = None"
| "drain body (p # ps) (DeadlinePassed # evs) st =
     Some (logging (fst timeout_notice) (snd timeout_notice) st)"
| "drain body (p # ps) (Completed i # evs) st =
     (if i \<in> set (p # ps) then drain body (remove1 i (p # ps)) evs (body i st) else None)"

definition parallel_process_texts_in_threads ::
  "text_item list \<Rightarrow> summarizer \<Rightarrow> writer \<Rightarrow> event list \<Rightarrow> batch_state
   \<Rightarrow> batch_state option" where
  "parallel_process_texts_in_threads extracted_texts summarizer writer evs st =
     drain (\<lambda>i. handle_completion writer summarizer (extracted_texts ! i))
       [0 ..< length extracted_texts] evs st"

text \<open>
  The futures still pending when the loop is left: the jobs whose results are never
  collected.
\<close>

fun abandoned :: "nat list \<Rightarrow> event list \<Rightarrow> nat list" where
  "abandoned [] evs = []"
| "abandoned (p # ps) [] = p # ps"
| "abandoned (p # ps) (DeadlinePassed # evs) = p # ps"
| "abandoned (p # ps) (Completed i # evs) =
     (if i \<in> set (p # ps) then abandoned (remove1 i (p # ps)) evs else p # ps)"

text \<open>One file of \<open>main\<close>: index the titles, cut the sections, dispatch the batch.\<close>

definition process_file ::
  "string \<Rightarrow> summarizer \<Rightarrow> writer \<Rightarrow> event list \<Rightarrow> batch_state \<Rightarrow> batch_state option" where
  "process_file content summarizer writer evs st =
     parallel_process_texts_in_threads
       (extract_text_beneath_duplicates content (extract_titles_from_toc content))
       summarizer writer evs st"

text \<open>
  Vocabulary for statements about the dispatcher: the body of the drain loop for a given
  batch, and the number of timeout notices in the log.
\<close>

abbreviation loop_body :: "writer \<Rightarrow> summarizer \<Rightarrow> text_item list \<Rightarrow> nat \<Rightarrow> batch_state \<Rightarrow> batch_state" where
  "loop_body writer summarizer extracted_texts \<equiv>
     (\<lambda>i. handle_completion writer summarizer (extracted_texts ! i))"

definition timeout_notices :: "batch_state \<Rightarrow> nat" where
  "timeout_notices st = length (filter (\<lambda>e. e = timeout_notice) (log st))"

text \<open>
  Vocabulary for statements about the CorrelationExtractor: a sentence whose lowercased
  form contains both keywords, said with the library's notion of a contiguous sublist.
\<close>

definition has_both_keywords :: "string \<Rightarrow> bool" where
  "has_both_keywords s \<longleftrightarrow>
     sublist ''climate change'' (py_lower s) \<and> sublist ''insurance'' (py_lower s)"

section \<open>Concrete collaborators for the examples\<close>

text \<open>
  Summarizers, writers and inputs used where a statement is evaluated on a concrete run.
\<close>

definition constant_summarizer :: "string \<Rightarrow> summarizer" where
  "constant_summarizer summary = (\<lambda>chunk. Inr summary)"

definition failing_summarizer :: "string \<Rightarrow> summarizer" where
  "failing_summarizer msg = (\<lambda>chunk. Inl (Exception msg))"

definition summarizer_failing_on :: "string \<Rightarrow> string \<Rightarrow> summarizer" where
  "summarizer_failing_on bad msg =
     (\<lambda>chunk. if chunk = bad then Inl (Exception msg) else Inr ''summary'')"

definition reliable_writer :: writer where
  "reliable_writer = (\<lambda>rows data. None)"

definition writer_rejecting :: "string \<Rightarrow> string \<Rightarrow> writer" where
  "writer_rejecting title msg =
     (\<lambda>rows data. if fst data = title then Some (Exception msg) else None)"

definition empty_batch :: batch_state where
  "empty_batch = \<lparr>csv = [], log = []\<rparr>"

definition no_metadata :: metadata where
  "no_metadata = \<lparr>Author = None, Publication_Title = None, Date = None\<rparr>"

definition body_a :: string where
  "body_a = ''Premiums rose sharply in every coastal county during the last decade''"

definition body_b :: string where
  "body_b = ''River gauges were replaced along the whole valley after the spring floods''"

definition two_items :: "text_item list" where
  "two_items = [(''A'', body_a, no_metadata), (''B'', body_b, no_metadata)]"

definition row_of_b :: "string \<Rightarrow> row" where
  "row_of_b summary = (''B'', body_b, summary, no_correlation, ''N/A'', ''N/A'', ''N/A'')"

definition wrapped_doc :: string where
  "wrapped_doc =
     ''1. Risk\<newline>Risk\<newline>Climate\<newline>change raises the cost of home insurance in every coastal county\<newline>''"

definition wrapped_raw :: string where
  "wrapped_raw = ''Climate\<newline>change raises the cost of home insurance in every coastal county''"

definition wrapped_clean :: string where
  "wrapped_clean = ''Climate change raises the cost of home insurance in every coastal county''"

section \<open>Properties of the TitleIndexer\<close>



declare findall_toc.simps [simp del]

lemma py_isspace_NL [simp]: "py_isspace NL"
  by (simp add: py_isspace_def)

lemma not_digit_dot [simp]: "\<not> py_isdigit (CHR ''.'')"
  by (simp add: py_isdigit_def)

lemma findall_toc_Nil [simp]: "findall_toc bol [] = []"
  by (subst findall_toc.simps) (simp add: toc_match_def)

lemma findall_toc_skip: "findall_toc False (c # cs) = findall_toc (c = NL) cs"
  by (subst findall_toc.simps) simp

lemma findall_toc_nomatch:
  "toc_match (c # cs) = None \<Longrightarrow> findall_toc bol (c # cs) = findall_toc (c = NL) cs"
  by (subst findall_toc.simps) simp

lemma findall_toc_match:
  "toc_match s = Some (sep, title, rest) \<Longrightarrow>
   findall_toc True s = title # findall_toc (last (sep @ title) = NL) rest"
  by (subst findall_toc.simps) simp

lemma toc_match_line:
  assumes ds: "ds \<noteq> []" "\<forall>c\<in>set ds. py_isdigit c"
    and ws: "ws \<noteq> []" "\<forall>c\<in>set ws. py_isspace c"
    and r: "r = [] \<or> \<not> py_isspace (hd r)"
  shows "toc_match (ds @ CHR ''.'' # ws @ r)
         = Some (ws, takeWhile (\<lambda>x. x \<noteq> NL) r, dropWhile (\<lambda>x. x \<noteq> NL) r)"
proof -
  have t1: "takeWhile py_isdigit (ds @ CHR ''.'' # ws @ r) = ds"
    using ds by (simp add: takeWhile_append2)
  have d1: "dropWhile py_isdigit (ds @ CHR ''.'' # ws @ r) = CHR ''.'' # ws @ r"
    using ds by (simp add: dropWhile_append2)
  have t2: "takeWhile py_isspace r = []"
    using r by (cases r) simp_all
  have d2: "dropWhile py_isspace r = r"
    using r by (cases r) simp_all
  show ?thesis
    using ds ws by (simp add: toc_match_def t1 d1 t2 d2)
qed

lemma toc_match_title:
  assumes "toc_match s = Some (sep, title, rest)"
  shows "NL \<notin> set title" and "title = [] \<or> \<not> py_isspace (hd title)"
    and "sep \<noteq> []" and "\<forall>c\<in>set sep. py_isspace c"
proof -
  from assms obtain c r where
    t: "title = takeWhile (\<lambda>x. x \<noteq> NL) (dropWhile py_isspace r)"
    and s: "sep = takeWhile py_isspace r" "sep \<noteq> []"
    by (auto simp: toc_match_def split: if_splits list.splits)
  show "NL \<notin> set title"
    unfolding t using set_takeWhileD by fastforce
  show "title = [] \<or> \<not> py_isspace (hd title)"
  proof (cases "dropWhile py_isspace r")
    case Nil
    show ?thesis unfolding t Nil by simp
  next
    case (Cons a as)
    then have "\<not> py_isspace a"
      by (metis hd_dropWhile list.sel(1) list.simps(3))
    then show ?thesis
      unfolding t Cons by simp
  qed
  show "sep \<noteq> []" by fact
  show "\<forall>c\<in>set sep. py_isspace c"
    unfolding s using set_takeWhileD by fastforce
qed

lemma findall_toc_titles:
  "t \<in> set (findall_toc bol s) \<Longrightarrow> NL \<notin> set t \<and> (t = [] \<or> \<not> py_isspace (hd t))"
proof (induction bol s rule: findall_toc.induct)
  case (1 bol s)
  show ?case
  proof (cases "if bol then toc_match s else None")
    case None
    show ?thesis
    proof (cases s)
      case Nil
      with "1.prems" show ?thesis by simp
    next
      case (Cons c cs)
      with None "1.prems" have "t \<in> set (findall_toc (c = NL) cs)"
        by (subst (asm) findall_toc.simps) simp
      with "1.IH"(1) [OF None Cons] show ?thesis .
    qed
  next
    case (Some m)
    obtain sep title rest where m: "m = (sep, title, rest)"
      by (cases m)
    from Some m "1.prems"
    have "t = title \<or> t \<in> set (findall_toc (last (sep @ title) = NL) rest)"
      by (subst (asm) findall_toc.simps) simp
    then show ?thesis
    proof
      assume "t = title"
      moreover from Some m have "toc_match s = Some (sep, title, rest)"
        by (simp split: if_splits)
      ultimately show ?thesis
        using toc_match_title(1,2) by blast
    next
      assume "t \<in> set (findall_toc (last (sep @ title) = NL) rest)"
      with "1.IH"(2) [OF Some m [symmetric] refl] show ?thesis
        by simp
    qed
  qed
qed


lemma takeWhile_upto_NL:
  "NL \<notin> set t \<Longrightarrow> takeWhile (\<lambda>x. x \<noteq> NL) (t @ NL # r) = t"
  by (induction t) auto

lemma dropWhile_upto_NL:
  "NL \<notin> set t \<Longrightarrow> dropWhile (\<lambda>x. x \<noteq> NL) (t @ NL # r) = NL # r"
  by (induction t) auto

lemma takeWhile_no_NL:
  "NL \<notin> set t \<Longrightarrow> takeWhile (\<lambda>x. x \<noteq> NL) t = t"
  by (induction t) auto

lemma dropWhile_no_NL:
  "NL \<notin> set t \<Longrightarrow> dropWhile (\<lambda>x. x \<noteq> NL) t = []"
  by (induction t) auto

lemma findall_toc_none:
  "(bol \<longrightarrow> toc_match s = None) \<Longrightarrow> \<forall>u\<in>set (after_nl s). toc_match u = None \<Longrightarrow>
   findall_toc bol s = []"
proof (induction s arbitrary: bol)
  case Nil
  show ?case by simp
next
  case (Cons c cs)
  have "findall_toc bol (c # cs) = findall_toc (c = NL) cs"
    using Cons.prems(1) by (subst findall_toc.simps) simp
  also have "\<dots> = []"
    using Cons.prems(2) by (intro Cons.IH) (auto split: if_splits)
  finally show ?case .
qed

lemma findall_toc_lines:
  "list_all toc_entry_ok es \<Longrightarrow>
   findall_toc True (concat (map toc_line es)) = map (\<lambda>e. snd (snd e)) es"
proof (induction es)
  case Nil
  show ?case by simp
next
  case (Cons e es)
  obtain ds ws t where e: "e = (ds, ws, t)"
    by (cases e)
  let ?more = "concat (map toc_line es)"
  from Cons.prems e have ok:
    "ds \<noteq> []" "\<forall>c\<in>set ds. py_isdigit c" "ws \<noteq> []" "\<forall>c\<in>set ws. py_isspace c"
    "t \<noteq> []" "\<not> py_isspace (hd t)" "NL \<notin> set t"
    by (simp_all add: toc_entry_ok_def list_all_iff)
  have tk: "takeWhile (\<lambda>x. x \<noteq> NL) (t @ NL # ?more) = t"
    using ok(7) by (rule takeWhile_upto_NL)
  have dr: "dropWhile (\<lambda>x. x \<noteq> NL) (t @ NL # ?more) = NL # ?more"
    using ok(7) by (rule dropWhile_upto_NL)
  have "toc_match (ds @ CHR ''.'' # ws @ (t @ NL # ?more)) = Some (ws, t, NL # ?more)"
    using toc_match_line [OF ok(1-4), of "t @ NL # ?more"] ok(5,6)
    by (simp add: tk dr)
  then have "findall_toc True (ds @ CHR ''.'' # ws @ (t @ NL # ?more))
             = t # findall_toc (last (ws @ t) = NL) (NL # ?more)"
    by (rule findall_toc_match)
  moreover have "last (ws @ t) \<noteq> NL"
    using ok(5,7) by (metis last_appendR last_in_set)
  moreover have "findall_toc False (NL # ?more) = findall_toc True ?more"
    by (simp add: findall_toc_skip)
  moreover have "findall_toc True ?more = map (\<lambda>e. snd (snd e)) es"
    using Cons by simp
  moreover have "toc_line e = ds @ CHR ''.'' # ws @ t @ [NL]"
    by (simp add: e toc_line_def)
  ultimately show ?case
    by (simp add: e)
qed

lemma toc_match_None_iff: "toc_match s = None \<longleftrightarrow> \<not> marker_prefix s"
proof -
  define ds where "ds = takeWhile py_isdigit s"
  define dr where "dr = dropWhile py_isdigit s"
  have tm: "toc_match s =
     (if ds = [] then None
      else case dr of
             [] \<Rightarrow> None
           | c # r \<Rightarrow>
               if c \<noteq> CHR ''.'' \<or> takeWhile py_isspace r = [] then None
               else Some (takeWhile py_isspace r,
                          takeWhile (\<lambda>x. x \<noteq> NL) (dropWhile py_isspace r),
                          dropWhile (\<lambda>x. x \<noteq> NL) (dropWhile py_isspace r)))"
    unfolding toc_match_def ds_def dr_def ..
  have mp: "marker_prefix s \<longleftrightarrow>
     ds \<noteq> [] \<and> (case dr of c # c' # r \<Rightarrow> c = CHR ''.'' \<and> py_isspace c' | _ \<Rightarrow> False)"
    unfolding marker_prefix_def ds_def dr_def ..
  show ?thesis
  proof (cases dr)
    case Nil
    then show ?thesis by (simp add: tm mp)
  next
    case (Cons c r)
    then show ?thesis by (cases r) (simp_all add: tm mp)
  qed
qed

lemma takeWhile_stop: "\<not> P x \<Longrightarrow> takeWhile P (l @ x # rest) = takeWhile P l"
  by (induction l) auto

lemma dropWhile_stop: "\<not> P x \<Longrightarrow> dropWhile P (l @ x # rest) = dropWhile P l @ x # rest"
  by (induction l) auto

lemma not_digit_NL [simp]: "\<not> py_isdigit NL"
  by (simp add: py_isdigit_def)

lemma takeWhile_digit_NL: "takeWhile py_isdigit (l @ NL # rest) = takeWhile py_isdigit l"
  by (rule takeWhile_stop) simp

lemma dropWhile_digit_NL: "dropWhile py_isdigit (l @ NL # rest) = dropWhile py_isdigit l @ NL # rest"
  by (rule dropWhile_stop) simp

lemma marker_prefix_line: "marker_prefix (l @ NL # rest) \<longleftrightarrow> marker_prefix (l @ [NL])"
proof -
  define ds where "ds = takeWhile py_isdigit l"
  define dr where "dr = dropWhile py_isdigit l"
  have "marker_prefix (l @ NL # r) \<longleftrightarrow>
          ds \<noteq> [] \<and>
          (case dr @ NL # r of c # c' # r \<Rightarrow> c = CHR ''.'' \<and> py_isspace c' | _ \<Rightarrow> False)" for r
    unfolding marker_prefix_def ds_def dr_def
    by (simp only: takeWhile_digit_NL dropWhile_digit_NL)
  then have eq: "marker_prefix (l @ NL # r) \<longleftrightarrow>
          ds \<noteq> [] \<and>
          (case dr of [] \<Rightarrow> False | [c] \<Rightarrow> c = CHR ''.'' | c # c' # r \<Rightarrow> c = CHR ''.'' \<and> py_isspace c')"
    for r
  proof (cases dr)
    case Nil
    assume "\<And>r. marker_prefix (l @ NL # r) \<longleftrightarrow>
          ds \<noteq> [] \<and>
          (case dr @ NL # r of c # c' # r \<Rightarrow> c = CHR ''.'' \<and> py_isspace c' | _ \<Rightarrow> False)"
    with Nil show ?thesis by (cases r) simp_all
  next
    case (Cons c q)
    assume "\<And>r. marker_prefix (l @ NL # r) \<longleftrightarrow>
          ds \<noteq> [] \<and>
          (case dr @ NL # r of c # c' # r \<Rightarrow> c = CHR ''.'' \<and> py_isspace c' | _ \<Rightarrow> False)"
    with Cons show ?thesis by (cases q) simp_all
  qed
  from eq [of rest] eq [of "[]"] show ?thesis
    by simp
qed

lemma marker_prefix_decompose:
  assumes "marker_prefix s"
  shows "\<exists>ds ws r. s = ds @ CHR ''.'' # ws @ r \<and> ds \<noteq> [] \<and> (\<forall>c\<in>set ds. py_isdigit c) \<and>
           ws \<noteq> [] \<and> (\<forall>c\<in>set ws. py_isspace c) \<and> (r = [] \<or> \<not> py_isspace (hd r))"
proof -
  let ?ds = "takeWhile py_isdigit s"
  from assms obtain c' r' where d: "dropWhile py_isdigit s = CHR ''.'' # c' # r'"
    and c': "py_isspace c'" and ds: "?ds \<noteq> []"
    by (auto simp: marker_prefix_def split: list.splits)
  let ?ws = "takeWhile py_isspace (c' # r')"
  let ?r = "dropWhile py_isspace (c' # r')"
  have "s = ?ds @ dropWhile py_isdigit s"
    by simp
  also have "\<dots> = ?ds @ CHR ''.'' # ?ws @ ?r"
    unfolding d by simp
  finally have "s = ?ds @ CHR ''.'' # ?ws @ ?r" .
  moreover have "\<forall>c\<in>set ?ds. py_isdigit c"
    using set_takeWhileD by fastforce
  moreover have "?ws \<noteq> []"
    using c' by simp
  moreover have "\<forall>c\<in>set ?ws. py_isspace c"
    using set_takeWhileD by fastforce
  moreover have "?r = [] \<or> \<not> py_isspace (hd ?r)"
    using hd_dropWhile [of py_isspace "c' # r'"] by blast
  ultimately show ?thesis
    using ds by blast
qed

lemma findall_toc_rest_of_line:
  "NL \<notin> set l \<Longrightarrow> findall_toc False (l @ NL # follow) = findall_toc True follow"
  by (induction l) (auto simp: findall_toc_skip)

lemma findall_toc_other_line:
  assumes "NL \<notin> set l" and "\<not> marker_prefix (l @ [NL])"
  shows "findall_toc True (l @ NL # follow) = findall_toc True follow"
proof -
  have none: "toc_match (l @ NL # follow) = None"
    using assms(2) by (simp add: toc_match_None_iff marker_prefix_line [of l follow])
  show ?thesis
  proof (cases l)
    case Nil
    with none show ?thesis
      using findall_toc_nomatch [of NL follow True] by simp
  next
    case (Cons c l')
    with assms(1) have c: "c \<noteq> NL" and l': "NL \<notin> set l'"
      by auto
    from none Cons have "findall_toc True (l @ NL # follow) = findall_toc (c = NL) (l' @ NL # follow)"
      using findall_toc_nomatch [of c "l' @ NL # follow" True] by simp
    with c l' show ?thesis
      by (simp add: findall_toc_rest_of_line)
  qed
qed

lemma findall_toc_entry_line:
  assumes "toc_entry_ok (ds, ws, t)"
  shows "findall_toc True (ds @ CHR ''.'' # ws @ t @ NL # follow) = t # findall_toc True follow"
proof -
  from assms have ok:
    "ds \<noteq> []" "\<forall>c\<in>set ds. py_isdigit c" "ws \<noteq> []" "\<forall>c\<in>set ws. py_isspace c"
    "t \<noteq> []" "\<not> py_isspace (hd t)" "NL \<notin> set t"
    by (simp_all add: toc_entry_ok_def list_all_iff)
  have tk: "takeWhile (\<lambda>x. x \<noteq> NL) (t @ NL # follow) = t"
    using ok(7) by (rule takeWhile_upto_NL)
  have dr: "dropWhile (\<lambda>x. x \<noteq> NL) (t @ NL # follow) = NL # follow"
    using ok(7) by (rule dropWhile_upto_NL)
  have "toc_match (ds @ CHR ''.'' # ws @ (t @ NL # follow)) = Some (ws, t, NL # follow)"
    using toc_match_line [OF ok(1-4), of "t @ NL # follow"] ok(5,6)
    by (simp add: tk dr)
  then have "findall_toc True (ds @ CHR ''.'' # ws @ (t @ NL # follow))
             = t # findall_toc (last (ws @ t) = NL) (NL # follow)"
    by (rule findall_toc_match)
  moreover have "last (ws @ t) \<noteq> NL"
    using ok(5,7) by (metis last_appendR last_in_set)
  moreover have "findall_toc False (NL # follow) = findall_toc True follow"
    by (simp add: findall_toc_skip)
  ultimately show ?thesis
    by simp
qed

lemma after_nl_no_NL: "NL \<notin> set l \<Longrightarrow> after_nl l = []"
  by (induction l) auto

lemma findall_toc_other_end:
  assumes "NL \<notin> set l" and "\<not> marker_prefix l"
  shows "findall_toc True l = []"
  using assms by (intro findall_toc_none) (simp_all add: toc_match_None_iff after_nl_no_NL)

lemma findall_toc_entry_end:
  assumes "ds \<noteq> []" "\<forall>c\<in>set ds. py_isdigit c" "ws \<noteq> []" "\<forall>c\<in>set ws. py_isspace c"
    and "NL \<notin> set t" and "t = [] \<or> \<not> py_isspace (hd t)"
  shows "findall_toc True (ds @ CHR ''.'' # ws @ t) = [t]"
proof -
  have "toc_match (ds @ CHR ''.'' # ws @ t) = Some (ws, t, [])"
    using toc_match_line [OF assms(1-4) assms(6)] assms(5)
    by (simp add: takeWhile_no_NL dropWhile_no_NL)
  then show ?thesis
    using findall_toc_match [of "ds @ CHR ''.'' # ws @ t" ws t "[]"] by simp
qed

lemma findall_toc_render:
  "list_all block_ok bs \<Longrightarrow> ending_ok e \<Longrightarrow>
   findall_toc True (render_toc bs e) = toc_titles bs e"
proof (induction bs)
  case Nil
  show ?case
  proof (cases e)
    case (Other_End l)
    with Nil show ?thesis
      by (simp add: render_toc_def toc_titles_def findall_toc_other_end)
  next
    case (Entry_End ds ws t)
    with Nil show ?thesis
      by (simp add: render_toc_def toc_titles_def findall_toc_entry_end list_all_iff)
  qed
next
  case (Cons b bs)
  then have IH: "findall_toc True (render_toc bs e) = toc_titles bs e"
    by simp
  show ?case
  proof (cases b)
    case (Other_Line l)
    with Cons.prems have "NL \<notin> set l" "\<not> marker_prefix (l @ [NL])"
      by simp_all
    then have "findall_toc True (l @ NL # render_toc bs e) = findall_toc True (render_toc bs e)"
      by (rule findall_toc_other_line)
    with IH Other_Line show ?thesis
      by (simp add: render_toc_def toc_titles_def)
  next
    case (Entry_Line ds ws t)
    with Cons.prems have "toc_entry_ok (ds, ws, t)"
      by simp
    then have "findall_toc True (ds @ CHR ''.'' # ws @ t @ NL # render_toc bs e)
               = t # findall_toc True (render_toc bs e)"
      by (rule findall_toc_entry_line)
    with IH Entry_Line show ?thesis
      by (simp add: render_toc_def toc_titles_def)
  qed
qed

lemma split_at_NL:
  obtains (last_line) "NL \<notin> set s"
  | (line) l rest where "s = l @ NL # rest" "NL \<notin> set l"
proof (cases "NL \<in> set s")
  case False
  then show ?thesis by (rule last_line)
next
  case True
  then obtain l rest where "s = l @ NL # rest" "NL \<notin> set l"
    by (meson split_list_first)
  then show ?thesis by (rule line)
qed

lemma toc_decomposition:
  "\<exists>bs e. list_all block_ok bs \<and> ending_ok e \<and> s = render_toc bs e"
proof (induction s rule: length_induct)
  case (1 s)
  have nil: "list_all block_ok []"
    by simp
  show ?case
  proof (cases "marker_prefix s")
    case False
    show ?thesis
    proof (cases rule: split_at_NL [of s])
      case last_line
      with False have "ending_ok (Other_End s) \<and> s = render_toc [] (Other_End s)"
        by (simp add: render_toc_def)
      with nil show ?thesis
        by blast
    next
      case (line l rest)
      from False line have ok: "block_ok (Other_Line l)"
        by (simp add: marker_prefix_line [of l rest])
      from line have "length rest < length s"
        by simp
      with 1 obtain bs e where r: "list_all block_ok bs" "ending_ok e" "rest = render_toc bs e"
        by blast
      have "s = render_toc (Other_Line l # bs) e"
        using line(1) r(3) by (simp add: render_toc_def)
      moreover have "list_all block_ok (Other_Line l # bs)"
        using ok r(1) by simp
      ultimately show ?thesis
        using r(2) by blast
    qed
  next
    case True
    then obtain ds ws r where d: "s = ds @ CHR ''.'' # ws @ r" "ds \<noteq> []"
      "\<forall>c\<in>set ds. py_isdigit c" "ws \<noteq> []" "\<forall>c\<in>set ws. py_isspace c"
      "r = [] \<or> \<not> py_isspace (hd r)"
      using marker_prefix_decompose by blast
    show ?thesis
    proof (cases rule: split_at_NL [of r])
      case last_line
      with d have "ending_ok (Entry_End ds ws r) \<and> s = render_toc [] (Entry_End ds ws r)"
        by (simp add: render_toc_def list_all_iff)
      with nil show ?thesis
        by blast
    next
      case (line t rest)
      have t: "t \<noteq> []"
      proof
        assume "t = []"
        with line d(6) have "\<not> py_isspace NL" by simp
        then show False by simp
      qed
      with line d(6) have "\<not> py_isspace (hd t)"
        by simp
      with t line(2) d have ok: "block_ok (Entry_Line ds ws t)"
        by (simp add: toc_entry_ok_def list_all_iff)
      from line d(1) have "length rest < length s"
        by simp
      with 1 obtain bs e where r: "list_all block_ok bs" "ending_ok e" "rest = render_toc bs e"
        by blast
      have "s = render_toc (Entry_Line ds ws t # bs) e"
        using line(1) d(1) r(3) by (simp add: render_toc_def)
      moreover have "list_all block_ok (Entry_Line ds ws t # bs)"
        using ok r(1) by simp
      ultimately show ?thesis
        using r(2) by blast
    qed
  qed
qed

text \<open>
  Claim C10.  The separator \<open>\\s+\<close> is not confined to the marker's line: when the marker
  line \<open>n.\<close> holds nothing else, the text of the following line is returned as the title;
  and a marker followed only by whitespace up to the end of the input yields the empty
  title.
\<close>

theorem titleindexer_separator_spans_lines:
  "ds \<noteq> [] \<Longrightarrow> \<forall>c\<in>set ds. py_isdigit c \<Longrightarrow>
   (line \<noteq> [] \<and> \<not> py_isspace (hd line) \<and> NL \<notin> set line \<longrightarrow>
      extract_titles_from_toc (ds @ CHR ''.'' # NL # line) = [line]) \<and>
   (ws \<noteq> [] \<and> (\<forall>c\<in>set ws. py_isspace c) \<longrightarrow>
      extract_titles_from_toc (ds @ CHR ''.'' # ws) = [[]])"
proof (intro conjI impI)
  assume ds: "ds \<noteq> []" "\<forall>c\<in>set ds. py_isdigit c"
  {
    assume l: "line \<noteq> [] \<and> \<not> py_isspace (hd line) \<and> NL \<notin> set line"
    then have "toc_match (ds @ CHR ''.'' # [NL] @ line) = Some ([NL], line, [])"
      using toc_match_line [OF ds, of "[NL]" line]
      by (simp add: takeWhile_no_NL dropWhile_no_NL)
    then show "extract_titles_from_toc (ds @ CHR ''.'' # NL # line) = [line]"
      unfolding extract_titles_from_toc_def
      using findall_toc_match [of "ds @ CHR ''.'' # NL # line" "[NL]" line "[]"] by simp
  }
  {
    assume w: "ws \<noteq> [] \<and> (\<forall>c\<in>set ws. py_isspace c)"
    then have "toc_match (ds @ CHR ''.'' # ws @ []) = Some (ws, [], [])"
      using toc_match_line [OF ds, of ws "[]"] by simp
    then show "extract_titles_from_toc (ds @ CHR ''.'' # ws) = [[]]"
      unfolding extract_titles_from_toc_def
      using findall_toc_match [of "ds @ CHR ''.'' # ws" ws "[]" "[]"] by simp
  }
qed

theorem titleindexer_separator_spans_lines_witness:
  "extract_titles_from_toc ''1.\<newline>Foo'' = [''Foo''] \<and> extract_titles_from_toc ''1. '' = [[]]"
  using titleindexer_separator_spans_lines [of "''1''" "''Foo''" "'' ''"]
  by (simp add: py_isdigit_def py_isspace_def)

text \<open>
  Claim C9 as stated fails in one respect: the captured group \<open>(.*)\<close> runs to the end of the
  line, so whitespace at the end of a title line is kept.
\<close>

theorem titleindexer_trailing_whitespace_counterexample:
  "extract_titles_from_toc ''1. Title  \<newline>Body'' = [''Title  ''] \<and>
   py_strip ''Title  '' \<noteq> ''Title  ''"
  by code_simp

text \<open>
  Claim C9, amended.  Every input is a sequence of lines that do not begin with a marker
  \<open><integer>.<whitespace>\<close> and of entries (a marker, the rest of its whitespace run, a
  title), with a last line or a last entry at its end; and on every such sequence the
  indexer returns exactly the titles of the entries, in document order, duplicates
  retained, skipping all other lines.  The separator run is consumed whole, so a returned
  title never begins with whitespace and never contains a line break; whitespace at the
  end of its line is kept.  The empty input, and an input none of whose lines matches,
  yield the empty sequence.
\<close>

theorem titleindexer_titles:
  "(\<exists>bs e. list_all block_ok bs \<and> ending_ok e \<and> input = render_toc bs e) \<and>
   (list_all block_ok bs \<and> ending_ok e \<longrightarrow>
      extract_titles_from_toc (render_toc bs e) = toc_titles bs e) \<and>
   extract_titles_from_toc [] = [] \<and>
   ((\<forall>u\<in>set (line_starts doc). toc_match u = None) \<longrightarrow> extract_titles_from_toc doc = []) \<and>
   (list_all toc_entry_ok es \<longrightarrow>
      extract_titles_from_toc (concat (map toc_line es)) = map (\<lambda>e. snd (snd e)) es) \<and>
   (\<forall>t\<in>set (extract_titles_from_toc doc'). NL \<notin> set t \<and> (t = [] \<or> \<not> py_isspace (hd t)))"
proof (intro conjI impI ballI)
  show "\<exists>bs e. list_all block_ok bs \<and> ending_ok e \<and> input = render_toc bs e"
    by (rule toc_decomposition)
next
  assume "list_all block_ok bs \<and> ending_ok e"
  then show "extract_titles_from_toc (render_toc bs e) = toc_titles bs e"
    unfolding extract_titles_from_toc_def by (simp add: findall_toc_render)
next
  show "extract_titles_from_toc [] = []"
    by (simp add: extract_titles_from_toc_def)
next
  assume "\<forall>u\<in>set (line_starts doc). toc_match u = None"
  then show "extract_titles_from_toc doc = []"
    unfolding extract_titles_from_toc_def line_starts_def
    by (intro findall_toc_none) simp_all
next
  assume "list_all toc_entry_ok es"
  then show "extract_titles_from_toc (concat (map toc_line es)) = map (\<lambda>e. snd (snd e)) es"
    unfolding extract_titles_from_toc_def by (rule findall_toc_lines)
next
  fix t
  assume "t \<in> set (extract_titles_from_toc doc')"
  then show "NL \<notin> set t" and "t = [] \<or> \<not> py_isspace (hd t)"
    unfolding extract_titles_from_toc_def using findall_toc_titles by blast+
qed

theorem titleindexer_titles_witness:
  "extract_titles_from_toc ''Contents\<newline>1. A\<newline>2. A  \<newline>3.\<newline>'' = [''A'', ''A  '', []] \<and>
   extract_titles_from_toc ''preface\<newline>no entries'' = [] \<and>
   extract_titles_from_toc ''1. Risk  \<newline>2. Risk  \<newline>'' = [''Risk  '', ''Risk  ''] \<and>
   ''A'' \<in> set (extract_titles_from_toc ''7. A'') \<and> NL \<notin> set ''A''"
proof -
  have d: "list_all block_ok
             [Other_Line ''Contents'', Entry_Line ''1'' '' '' ''A'', Entry_Line ''2'' '' '' ''A  '']
           \<and> ending_ok (Entry_End ''3'' [NL] [])"
    by code_simp
  have a: "\<forall>u\<in>set (line_starts ''preface\<newline>no entries''). toc_match u = None"
    by code_simp
  have b: "list_all toc_entry_ok [(''1'', '' '', ''Risk  ''), (''2'', '' '', ''Risk  '')]"
    by code_simp
  have c: "''A'' \<in> set (extract_titles_from_toc ''7. A'')"
    by code_simp
  show ?thesis
    using titleindexer_titles
      [where bs = "[Other_Line ''Contents'', Entry_Line ''1'' '' '' ''A'',
                    Entry_Line ''2'' '' '' ''A  '']"
         and e = "Entry_End ''3'' [NL] []"
         and doc = "''preface\<newline>no entries''"
         and es = "[(''1'', '' '', ''Risk  ''), (''2'', '' '', ''Risk  '')]"
         and doc' = "''7. A''"] a b c d
    by (simp add: toc_line_def render_toc_def toc_titles_def)
qed

section \<open>Properties of the TextNormalizer\<close>

declare sub_urls.simps [simp del]

lemma url_match_iff:
  "url_match s \<noteq> None \<longleftrightarrow>
     (\<exists>c t. \<not> py_isspace c \<and> (s = ''https://'' @ c # t \<or> s = ''http://'' @ c # t))"
proof
  assume "url_match s \<noteq> None"
  then consider "prefix ''https://'' s" "nonspace_run (drop 8 s) \<noteq> None"
    | "prefix ''http://'' s" "nonspace_run (drop 7 s) \<noteq> None"
    by (auto simp: url_match_def split: if_splits)
  then show "\<exists>c t. \<not> py_isspace c \<and> (s = ''https://'' @ c # t \<or> s = ''http://'' @ c # t)"
  proof cases
    case 1
    then obtain r where s: "s = ''https://'' @ r"
      by (auto simp: prefix_def)
    with 1(2) obtain c t where "r = c # t" "\<not> py_isspace c"
      by (cases r) (auto simp: nonspace_run_def split: if_splits)
    with s show ?thesis by blast
  next
    case 2
    then obtain r where s: "s = ''http://'' @ r"
      by (auto simp: prefix_def)
    with 2(2) obtain c t where "r = c # t" "\<not> py_isspace c"
      by (cases r) (auto simp: nonspace_run_def split: if_splits)
    with s show ?thesis by blast
  qed
next
  assume "\<exists>c t. \<not> py_isspace c \<and> (s = ''https://'' @ c # t \<or> s = ''http://'' @ c # t)"
  then obtain c t where c: "\<not> py_isspace c"
    and s: "s = ''https://'' @ c # t \<or> s = ''http://'' @ c # t"
    by blast
  from s show "url_match s \<noteq> None"
  proof
    assume "s = ''https://'' @ c # t"
    then show ?thesis using c by (simp add: url_match_def nonspace_run_def)
  next
    assume "s = ''http://'' @ c # t"
    then show ?thesis using c by (simp add: url_match_def nonspace_run_def)
  qed
qed

lemma url_match_prefix:
  "prefix p q \<Longrightarrow> url_match p \<noteq> None \<Longrightarrow> url_match q \<noteq> None"
  unfolding url_match_iff by (auto simp: prefix_def)

lemma url_match_run:
  "url_match s \<noteq> None \<Longrightarrow> url_match (takeWhile nonsp s) \<noteq> None"
  unfolding url_match_iff
  by (auto simp: py_isspace_def)

lemma py_isspace_space [simp]: "py_isspace (CHR '' '')"
  by (simp add: py_isspace_def)

lemma url_match_hd: "url_match s \<noteq> None \<Longrightarrow> hd s = CHR ''h''"
  unfolding url_match_iff by auto

lemma url_match_space: "py_isspace c \<Longrightarrow> url_match (c # cs) = None"
proof -
  have "\<not> py_isspace (CHR ''h'')"
    by (simp add: py_isspace_def)
  moreover assume "py_isspace c"
  ultimately have "c \<noteq> CHR ''h''" by blast
  then show ?thesis
    using url_match_hd [of "c # cs"] by fastforce
qed

lemma url_match_Nil [simp]: "url_match [] = None"
  by (simp add: url_match_def)

lemma sub_urls_Nil [simp]: "sub_urls [] = []"
  by (subst sub_urls.simps) simp

lemma sub_urls_nomatch: "url_match (c # cs) = None \<Longrightarrow> sub_urls (c # cs) = c # sub_urls cs"
  by (subst sub_urls.simps) simp

lemma sub_urls_match: "url_match s = Some r \<Longrightarrow> sub_urls s = sub_urls r"
  by (subst sub_urls.simps) simp

lemma nonspace_run_rest: "nonspace_run u = Some r \<Longrightarrow> r = [] \<or> py_isspace (hd r)"
proof -
  assume "nonspace_run u = Some r"
  then have r: "r = dropWhile nonsp u"
    by (simp add: nonspace_run_def split: if_splits)
  show ?thesis
  proof (cases "r = []")
    case True
    then show ?thesis by simp
  next
    case False
    then have "\<not> nonsp (hd (dropWhile nonsp u))"
      unfolding r by (rule hd_dropWhile)
    then show ?thesis by (simp add: r)
  qed
qed

lemma url_match_rest: "url_match s = Some r \<Longrightarrow> r = [] \<or> py_isspace (hd r)"
proof -
  assume "url_match s = Some r"
  then consider "nonspace_run (drop 8 s) = Some r" | "nonspace_run (drop 7 s) = Some r"
    by (simp add: url_match_def split: if_splits)
  then show ?thesis
    by cases (rule nonspace_run_rest, assumption)+
qed

lemma sub_urls_run_space: "r = [] \<or> py_isspace (hd r) \<Longrightarrow> takeWhile nonsp (sub_urls r) = []"
  by (cases r) (auto simp: sub_urls_nomatch url_match_space)

lemma sub_urls_run: "prefix (takeWhile nonsp (sub_urls s)) (takeWhile nonsp s)"
proof (induction s rule: sub_urls.induct)
  case (1 s)
  show ?case
  proof (cases "url_match s")
    case (Some r)
    then show ?thesis
      by (simp add: sub_urls_match sub_urls_run_space url_match_rest)
  next
    case None
    show ?thesis
    proof (cases s)
      case Nil
      then show ?thesis by simp
    next
      case (Cons c cs)
      with None "1.IH"(1) show ?thesis
        by (simp add: sub_urls_nomatch)
    qed
  qed
qed

lemma url_free_Nil [simp]: "url_free []"
  by (simp add: url_free_def)

lemma url_free_Cons: "url_free (c # cs) \<longleftrightarrow> url_match (c # cs) = None \<and> url_free cs"
  by (auto simp: url_free_def suffix_Cons)

lemma url_free_suffix: "suffix u s \<Longrightarrow> url_free s \<Longrightarrow> url_free u"
  unfolding url_free_def using suffix_order.trans by blast

lemma url_free_sub_urls: "url_free (sub_urls s)"
proof (induction s rule: sub_urls.induct)
  case (1 s)
  show ?case
  proof (cases "url_match s")
    case (Some r)
    with "1.IH"(2) show ?thesis
      by (simp add: sub_urls_match)
  next
    case None
    show ?thesis
    proof (cases s)
      case Nil
      then show ?thesis by simp
    next
      case (Cons c cs)
      have "url_match (c # sub_urls cs) = None"
      proof (rule ccontr)
        assume "url_match (c # sub_urls cs) \<noteq> None"
        then have m: "url_match (takeWhile nonsp (c # sub_urls cs)) \<noteq> None"
          by (rule url_match_run)
        then have c: "\<not> py_isspace c"
          by (auto split: if_splits)
        have "prefix (takeWhile nonsp (c # sub_urls cs)) (c # cs)"
          using c sub_urls_run [of cs]
          by (simp add: prefix_order.trans [OF _ takeWhile_is_prefix])
        with m have "url_match (c # cs) \<noteq> None"
          using url_match_prefix by blast
        with None Cons show False by simp
      qed
      with None Cons "1.IH"(1) show ?thesis
        by (simp add: sub_urls_nomatch url_free_Cons)
    qed
  qed
qed

lemma sub_urls_url_free: "url_free s \<Longrightarrow> sub_urls s = s"
  by (induction s) (simp_all add: url_free_Cons sub_urls_nomatch)

lemma sub_ws_run: "takeWhile nonsp (sub_ws s) = takeWhile nonsp s"
  by (induction s rule: sub_ws.induct) auto

lemma url_free_sub_ws: "url_free s \<Longrightarrow> url_free (sub_ws s)"
proof (induction s rule: sub_ws.induct)
  case 1
  show ?case by simp
next
  case (2 c cs)
  show ?case
  proof (cases "py_isspace c")
    case True
    have "url_free (dropWhile py_isspace cs)"
      using "2.prems" url_free_suffix [of "dropWhile py_isspace cs" "c # cs"]
      by (simp add: suffix_Cons suffix_dropWhile)
    with True "2.IH"(1) have "url_free (sub_ws (dropWhile py_isspace cs))"
      by simp
    with True show ?thesis
      by (simp add: url_free_Cons url_match_space)
  next
    case False
    from "2.prems" have cs: "url_free cs" and m: "url_match (c # cs) = None"
      by (simp_all add: url_free_Cons)
    have "url_match (c # sub_ws cs) = None"
    proof (rule ccontr)
      assume "url_match (c # sub_ws cs) \<noteq> None"
      then have "url_match (takeWhile nonsp (c # sub_ws cs)) \<noteq> None"
        by (rule url_match_run)
      then have "url_match (takeWhile nonsp (c # cs)) \<noteq> None"
        using False by (simp add: sub_ws_run)
      then have "url_match (c # cs) \<noteq> None"
        using url_match_prefix [OF takeWhile_is_prefix] by blast
      with m show False by simp
    qed
    with False "2.IH"(2) cs show ?thesis
      by (simp add: url_free_Cons)
  qed
qed

lemma strip_right_split:
  "u = strip_right u @ rev (takeWhile py_isspace (rev u))"
  unfolding strip_right_def
  by (metis rev_append rev_rev_ident takeWhile_dropWhile_id)

lemma py_strip_alt: "py_strip s = strip_right (dropWhile py_isspace s)"
  by (simp add: py_strip_def strip_right_def)

lemma strip_right_prefix: "prefix (strip_right u) u"
  using strip_right_split [of u] by (metis prefixI)

lemma strip_right_idem: "strip_right (strip_right u) = strip_right u"
  by (simp add: strip_right_def dropWhile_idem)

lemma strip_right_nolead:
  assumes "u = [] \<or> \<not> py_isspace (hd u)"
  shows "dropWhile py_isspace (strip_right u) = strip_right u"
proof (cases "strip_right u")
  case Nil
  then show ?thesis by simp
next
  case (Cons a as)
  then have "hd u = a" "u \<noteq> []"
    using strip_right_prefix [of u] by (auto simp: prefix_def)
  with assms Cons show ?thesis by simp
qed

lemma dropWhile_nolead:
  "dropWhile py_isspace s = [] \<or> \<not> py_isspace (hd (dropWhile py_isspace s))"
  using hd_dropWhile [of py_isspace s] by blast

lemma py_strip_idem: "py_strip (py_strip s) = py_strip s"
proof -
  let ?d = "dropWhile py_isspace s"
  have "dropWhile py_isspace (strip_right ?d) = strip_right ?d"
    using dropWhile_nolead by (rule strip_right_nolead)
  then show ?thesis
    by (simp add: py_strip_alt strip_right_idem)
qed

lemma url_free_prefix:
  assumes "url_free (p @ q)"
  shows "url_free p"
  unfolding url_free_def
proof (intro allI impI)
  fix u
  assume "suffix u p"
  then have "suffix (u @ q) (p @ q)"
    by simp
  with assms have "url_match (u @ q) = None"
    unfolding url_free_def by blast
  show "url_match u = None"
  proof (rule ccontr)
    assume "url_match u \<noteq> None"
    with url_match_prefix [of u "u @ q"] have "url_match (u @ q) \<noteq> None"
      by simp
    with \<open>url_match (u @ q) = None\<close> show False
      by simp
  qed
qed

lemma url_free_py_strip: "url_free s \<Longrightarrow> url_free (py_strip s)"
proof -
  assume "url_free s"
  then have "url_free (dropWhile py_isspace s)"
    using url_free_suffix suffix_dropWhile by blast
  then have "url_free (strip_right (dropWhile py_isspace s)
                       @ rev (takeWhile py_isspace (rev (dropWhile py_isspace s))))"
    using strip_right_split [of "dropWhile py_isspace s"] by simp
  then show ?thesis
    unfolding py_strip_alt by (rule url_free_prefix)
qed

lemma ws_normal_append: "ws_normal (xs @ ys) \<Longrightarrow> ws_normal xs \<and> ws_normal ys"
proof (induction xs)
  case Nil
  then show ?case by simp
next
  case (Cons x xs)
  then show ?case
    by (cases xs) auto
qed

lemma sub_ws_hd: "\<not> py_isspace c \<Longrightarrow> hd (sub_ws (c # cs)) = c"
  by simp

lemma ws_normal_sub_ws: "ws_normal (sub_ws s)"
proof (induction s rule: sub_ws.induct)
  case 1
  show ?case by simp
next
  case (2 c cs)
  show ?case
  proof (cases "py_isspace c")
    case True
    have "sub_ws (dropWhile py_isspace cs) = []
          \<or> \<not> py_isspace (hd (sub_ws (dropWhile py_isspace cs)))"
    proof (cases "dropWhile py_isspace cs")
      case Nil
      show ?thesis unfolding Nil by simp
    next
      case (Cons d ds)
      then have "\<not> py_isspace d"
        using dropWhile_nolead [of cs] by simp
      then show ?thesis
        unfolding Cons by simp
    qed
    with True "2.IH"(1) show ?thesis
      by simp
  next
    case False
    with "2.IH"(2) show ?thesis
      by simp
  qed
qed

lemma sub_ws_normal: "ws_normal s \<Longrightarrow> sub_ws s = s"
proof (induction s)
  case Nil
  show ?case by simp
next
  case (Cons c cs)
  show ?case
  proof (cases "py_isspace c")
    case True
    with Cons.prems have c: "c = CHR '' ''" and h: "cs = [] \<or> \<not> py_isspace (hd cs)"
      and n: "ws_normal cs"
      by simp_all
    from h have "dropWhile py_isspace cs = cs"
      by (cases cs) simp_all
    with True c Cons.IH [OF n] show ?thesis
      by simp
  next
    case False
    with Cons show ?thesis by simp
  qed
qed

lemma ws_normal_py_strip: "ws_normal s \<Longrightarrow> ws_normal (py_strip s)"
proof -
  assume n: "ws_normal s"
  have "s = takeWhile py_isspace s @ dropWhile py_isspace s"
    by simp
  with n have "ws_normal (dropWhile py_isspace s)"
    using ws_normal_append by metis
  then have "ws_normal (strip_right (dropWhile py_isspace s)
                         @ rev (takeWhile py_isspace (rev (dropWhile py_isspace s))))"
    using strip_right_split [of "dropWhile py_isspace s"] by simp
  then show ?thesis
    unfolding py_strip_alt using ws_normal_append by blast
qed

text \<open>
  Claim C8.  The normalizer is idempotent.  Deleting the URL matches leaves a text without
  any match (a match lies inside one run of non-whitespace characters, and what follows a
  deleted match is whitespace or the end); collapsing and trimming change whitespace
  only, so the second pass finds nothing to delete, nothing to collapse and nothing to
  trim.
\<close>

theorem clean_text_idempotent: "clean_text (clean_text x) = clean_text x"
proof -
  let ?y = "sub_ws (sub_urls x)"
  have "url_free (py_strip ?y)"
    by (intro url_free_py_strip url_free_sub_ws url_free_sub_urls)
  then have 1: "sub_urls (py_strip ?y) = py_strip ?y"
    by (rule sub_urls_url_free)
  have "ws_normal (py_strip ?y)"
    by (intro ws_normal_py_strip ws_normal_sub_ws)
  then have 2: "sub_ws (py_strip ?y) = py_strip ?y"
    by (rule sub_ws_normal)
  show ?thesis
    by (simp add: clean_text_def 1 2 py_strip_idem)
qed

section \<open>Properties of the CorrelationExtractor\<close>

lemma py_in_iff_sublist: "py_in needle hay \<longleftrightarrow> sublist needle hay"
  by (induction hay) (simp_all add: sublist_Cons_right)

lemma mentions_both_iff: "mentions_both s \<longleftrightarrow> has_both_keywords s"
  by (simp add: mentions_both_def has_both_keywords_def py_in_iff_sublist)

lemma re_split_not_Nil [simp]: "re_split s \<noteq> []"
  by (induction s) (auto split: list.splits)

lemma re_split_length: "length (re_split s) = Suc (length (filter is_terminator s))"
  by (induction s) (auto split: list.splits)

lemma re_split_pieces: "p \<in> set (re_split s) \<Longrightarrow> c \<in> set p \<Longrightarrow> \<not> is_terminator c"
proof (induction s arbitrary: p)
  case Nil
  then show ?case by simp
next
  case (Cons a s)
  show ?case
  proof (cases "is_terminator a")
    case True
    with Cons.prems have "p = [] \<or> p \<in> set (re_split s)"
      by simp
    with Cons.prems(2) Cons.IH show ?thesis
      by auto
  next
    case False
    obtain piece pieces where sp: "re_split s = piece # pieces"
      by (cases "re_split s") simp_all
    with False Cons.prems(1) have "p = a # piece \<or> p \<in> set pieces"
      by simp
    then show ?thesis
    proof
      assume "p = a # piece"
      with Cons.prems(2) have "c = a \<or> c \<in> set piece"
        by simp
      then show ?thesis
        using False Cons.IH [of piece] sp by auto
    next
      assume "p \<in> set pieces"
      then show ?thesis
        using Cons.IH [of p] Cons.prems(2) sp by simp
    qed
  qed
qed

lemma re_split_concat: "concat (re_split s) = filter (\<lambda>c. \<not> is_terminator c) s"
  by (induction s) (auto split: list.splits)

lemma correlation_none:
  "\<forall>s\<in>set (re_split text). \<not> has_both_keywords s \<Longrightarrow>
   summarize_climate_insurance_correlation text summarizer = ([], Inr no_correlation)"
proof -
  assume "\<forall>s\<in>set (re_split text). \<not> has_both_keywords s"
  then have "filter mentions_both (re_split text) = []"
    by (simp add: filter_empty_conv mentions_both_iff)
  then show ?thesis
    by (simp add: summarize_climate_insurance_correlation_def)
qed

lemma correlation_some:
  "\<exists>s\<in>set (re_split text). has_both_keywords s \<Longrightarrow>
   summarize_climate_insurance_correlation text summarizer
     = summarize_text (py_join '' '' (map py_strip (filter has_both_keywords (re_split text))))
         summarizer"
proof -
  have eq: "filter mentions_both (re_split text) = filter has_both_keywords (re_split text)"
    by (rule filter_cong) (simp_all add: mentions_both_iff)
  assume "\<exists>s\<in>set (re_split text). has_both_keywords s"
  then have "filter has_both_keywords (re_split text) \<noteq> []"
    by (simp add: filter_empty_conv)
  then show ?thesis
    by (simp add: summarize_climate_insurance_correlation_def eq)
qed

lemma segmenter_items:
  assumes "item \<in> set (extract_text_beneath_duplicates content titles)"
  shows "\<exists>title m. title \<in> set titles \<and> m \<in> set (title_occurrences title content) \<and>
     item = (title, clean_text (extracted_text title content (snd m)),
             extract_metadata (extracted_text title content (snd m)))"
proof -
  from assms obtain title m where
    "title \<in> set titles" "m \<in> set (title_occurrences title content)"
    "item = make_section title content m"
    unfolding extract_text_beneath_duplicates_def sections_of_title_def by auto
  then show ?thesis
    unfolding make_section_def Let_def by blast
qed

lemma job_correlation_field:
  "process_text_item_in_threads (title, text, md) summarizer
     = (calls, Inr (t', x', summary, correlation, md')) \<Longrightarrow>
   x' = text \<and> (\<exists>calls'. summarize_climate_insurance_correlation text summarizer
                          = (calls', Inr correlation))"
  by (auto simp: process_text_item_in_threads_def split: prod.splits sum.splits)

text \<open>
  Claim C4 as stated fails in its first clause: the job receives the section's normalized
  text (the second component of the tuple built by the segmenter) and hands that to the
  extractor.  Below, the raw body has a line break between ``Climate'' and ``change'':
  read on the raw body no sentence holds the substring, and the specified extractor
  returns the sentinel without a call; the code reads the normalized body, finds the
  sentence and calls the summarizer.
\<close>

theorem correlation_not_on_raw_text_counterexample:
  "extract_text_beneath_duplicates wrapped_doc (extract_titles_from_toc wrapped_doc)
     = [(''Risk'', wrapped_clean, no_metadata)] \<and>
   title_occurrences ''Risk'' wrapped_doc = [(7, 13)] \<and>
   extracted_text ''Risk'' wrapped_doc 13 = wrapped_raw \<and>
   process_text_item_in_threads (''Risk'', wrapped_clean, no_metadata)
       (constant_summarizer ''summary'')
     = ([wrapped_clean, wrapped_clean],
        Inr (''Risk'', wrapped_clean, ''summary'', ''summary'', no_metadata)) \<and>
   spec_correlation_on_raw wrapped_raw (constant_summarizer ''summary'')
     = ([], Inr no_correlation)"
proof (intro conjI)
  show "extract_text_beneath_duplicates wrapped_doc (extract_titles_from_toc wrapped_doc)
          = [(''Risk'', wrapped_clean, no_metadata)]"
    by code_simp
  show "title_occurrences ''Risk'' wrapped_doc = [(7, 13)]"
    by code_simp
  show "extracted_text ''Risk'' wrapped_doc 13 = wrapped_raw"
    by code_simp
  show "process_text_item_in_threads (''Risk'', wrapped_clean, no_metadata)
            (constant_summarizer ''summary'')
          = ([wrapped_clean, wrapped_clean],
             Inr (''Risk'', wrapped_clean, ''summary'', ''summary'', no_metadata))"
    by code_simp
  show "spec_correlation_on_raw wrapped_raw (constant_summarizer ''summary'')
          = ([], Inr no_correlation)"
    by code_simp
qed

text \<open>
  Claim C4, amended.  The CorrelationExtractor operates on the section's normalized text:
  every tuple built by the segmenter carries \<open>clean_text\<close> of the raw body as its text, and
  the job passes that text to the extractor and returns its outcome as the correlation
  field.  On the text it receives, the extractor does what the claim says: it splits at
  every \<open>.\<close>, \<open>!\<close> and \<open>?\<close> (the pieces hold no terminator and together are the text
  without its terminators), keeps the trimmed pieces whose lowercased form contains both
  ``climate change'' and ``insurance'', returns the sentinel without any call to the
  summarizer when no piece qualifies, and otherwise summarizes the kept pieces joined by
  single spaces.
\<close>

theorem correlation_on_normalized_text:
  "(item \<in> set (extract_text_beneath_duplicates content titles) \<longrightarrow>
      (\<exists>title m. title \<in> set titles \<and> m \<in> set (title_occurrences title content) \<and>
         item = (title, clean_text (extracted_text title content (snd m)),
                 extract_metadata (extracted_text title content (snd m))))) \<and>
   (process_text_item_in_threads (title, text, md) summarizer
      = (calls, Inr (t', x', summary, correlation, md')) \<longrightarrow>
      x' = text \<and>
      (\<exists>calls'. summarize_climate_insurance_correlation text summarizer
                  = (calls', Inr correlation))) \<and>
   ((\<forall>s\<in>set (re_split u). \<not> has_both_keywords s) \<longrightarrow>
      summarize_climate_insurance_correlation u summarizer = ([], Inr no_correlation)) \<and>
   ((\<exists>s\<in>set (re_split v). has_both_keywords s) \<longrightarrow>
      summarize_climate_insurance_correlation v summarizer
        = summarize_text
            (py_join '' '' (map py_strip (filter has_both_keywords (re_split v)))) summarizer) \<and>
   (\<forall>p\<in>set (re_split v). \<forall>c\<in>set p. \<not> is_terminator c) \<and>
   concat (re_split v) = filter (\<lambda>c. \<not> is_terminator c) v \<and>
   length (re_split v) = Suc (length (filter is_terminator v))"
proof (intro conjI impI ballI)
  assume "item \<in> set (extract_text_beneath_duplicates content titles)"
  then show "\<exists>title m. title \<in> set titles \<and> m \<in> set (title_occurrences title content) \<and>
         item = (title, clean_text (extracted_text title content (snd m)),
                 extract_metadata (extracted_text title content (snd m)))"
    by (rule segmenter_items)
next
  assume r: "process_text_item_in_threads (title, text, md) summarizer
               = (calls, Inr (t', x', summary, correlation, md'))"
  from job_correlation_field [OF r] show "x' = text"
    and "\<exists>calls'. summarize_climate_insurance_correlation text summarizer
                    = (calls', Inr correlation)"
    by blast+
next
  assume "\<forall>s\<in>set (re_split u). \<not> has_both_keywords s"
  then show "summarize_climate_insurance_correlation u summarizer = ([], Inr no_correlation)"
    by (rule correlation_none)
next
  assume "\<exists>s\<in>set (re_split v). has_both_keywords s"
  then show "summarize_climate_insurance_correlation v summarizer
        = summarize_text
            (py_join '' '' (map py_strip (filter has_both_keywords (re_split v)))) summarizer"
    by (rule correlation_some)
next
  fix p c
  assume "p \<in> set (re_split v)" "c \<in> set p"
  then show "\<not> is_terminator c"
    by (rule re_split_pieces)
next
  show "concat (re_split v) = filter (\<lambda>c. \<not> is_terminator c) v"
    by (rule re_split_concat)
next
  show "length (re_split v) = Suc (length (filter is_terminator v))"
    by (rule re_split_length)
qed

theorem correlation_on_normalized_text_witness:
  "(''Risk'', wrapped_clean, no_metadata)
     \<in> set (extract_text_beneath_duplicates wrapped_doc [''Risk'']) \<and>
   process_text_item_in_threads (''Risk'', wrapped_clean, no_metadata)
       (constant_summarizer ''summary'')
     = ([wrapped_clean, wrapped_clean],
        Inr (''Risk'', wrapped_clean, ''summary'', ''summary'', no_metadata)) \<and>
   summarize_climate_insurance_correlation wrapped_raw (constant_summarizer ''summary'')
     = ([], Inr no_correlation) \<and>
   summarize_climate_insurance_correlation ''Climate change hits insurance. Really? Yes''
       (constant_summarizer ''summary'')
     = summarize_text
         (py_join '' '' (map py_strip (filter has_both_keywords
            (re_split ''Climate change hits insurance. Really? Yes''))))
         (constant_summarizer ''summary'') \<and>
   re_split ''Climate change hits insurance. Really? Yes''
     = [''Climate change hits insurance'', '' Really'', '' Yes'']"
proof -
  let ?summ = "constant_summarizer ''summary''"
  let ?v = "''Climate change hits insurance. Really? Yes''"
  note T = correlation_on_normalized_text
      [where item = "(''Risk'', wrapped_clean, no_metadata)" and content = wrapped_doc
         and titles = "[''Risk'']" and summarizer = ?summ and u = wrapped_raw and v = ?v]
  have a: "(''Risk'', wrapped_clean, no_metadata)
             \<in> set (extract_text_beneath_duplicates wrapped_doc [''Risk''])"
    by code_simp
  have b: "process_text_item_in_threads (''Risk'', wrapped_clean, no_metadata) ?summ
             = ([wrapped_clean, wrapped_clean],
                Inr (''Risk'', wrapped_clean, ''summary'', ''summary'', no_metadata))"
    by code_simp
  have c: "\<forall>s\<in>set (re_split wrapped_raw). \<not> has_both_keywords s"
    unfolding mentions_both_iff [symmetric] by code_simp
  have d: "\<exists>s\<in>set (re_split ?v). has_both_keywords s"
    unfolding mentions_both_iff [symmetric] by code_simp
  have sp: "re_split ?v = [''Climate change hits insurance'', '' Really'', '' Yes'']"
    by code_simp
  have r3: "summarize_climate_insurance_correlation wrapped_raw ?summ = ([], Inr no_correlation)"
    by (rule mp [OF T [THEN conjunct2, THEN conjunct2, THEN conjunct1] c])
  have r4: "summarize_climate_insurance_correlation ?v ?summ
            = summarize_text
                (py_join '' '' (map py_strip (filter has_both_keywords (re_split ?v)))) ?summ"
    by (rule mp [OF T [THEN conjunct2, THEN conjunct2, THEN conjunct2, THEN conjunct1] d])
  show ?thesis
    by (insert a b r3 r4 sp, intro conjI, assumption+)
qed

section \<open>Properties of the ConcurrentDispatcher and the IncrementalSink\<close>

lemma csv_logging [simp]: "csv (logging lvl msg st) = csv st"
  by (simp add: logging_def)

lemma log_logging [simp]: "log (logging lvl msg st) = log st @ [(lvl, msg)]"
  by (simp add: logging_def)

lemma handle_job_failure:
  "future_result summarizer item = Inl (Exception msg) \<Longrightarrow>
   handle_completion writer summarizer item st
     = logging WARNING (''Error processing text: '' @ msg) st"
  by (simp add: handle_completion_def try_completion_def)

lemma handle_sink_failure:
  "future_result summarizer item = Inr r \<Longrightarrow> writer (csv st) (row_data r) = Some (Exception msg) \<Longrightarrow>
   handle_completion writer summarizer item st
     = logging WARNING (''Error processing text: '' @ msg) st"
  by (simp add: handle_completion_def try_completion_def save_to_csv_incremental_def)

lemma handle_success:
  "future_result summarizer item = Inr r \<Longrightarrow> writer (csv st) (row_data r) = None \<Longrightarrow>
   handle_completion writer summarizer item st
     = logging INFO ''Row appended to CSV.'' (st\<lparr>csv := csv st @ [row_data r]\<rparr>)"
  by (simp add: handle_completion_def try_completion_def save_to_csv_incremental_def)

lemma handle_cases:
  obtains (job_failed) msg where "future_result summarizer item = Inl (Exception msg)"
  | (sink_failed) r msg where "future_result summarizer item = Inr r"
      "writer (csv st) (row_data r) = Some (Exception msg)"
  | (appended) r where "future_result summarizer item = Inr r"
      "writer (csv st) (row_data r) = None"
proof (cases "future_result summarizer item")
  case (Inl e)
  then show ?thesis using job_failed by (cases e) auto
next
  case (Inr r)
  show ?thesis
  proof (cases "writer (csv st) (row_data r)")
    case None
    with Inr show ?thesis using appended by blast
  next
    case (Some e)
    with Inr show ?thesis using sink_failed by (cases e) auto
  qed
qed

lemma handle_csv_log_independent:
  "csv st = csv st2 \<Longrightarrow>
   csv (handle_completion writer summarizer item st)
     = csv (handle_completion writer summarizer item st2)"
proof -
  assume eq: "csv st = csv st2"
  show ?thesis
  proof (cases rule: handle_cases [where summarizer = summarizer and item = item and writer = writer and st = st])
    case (job_failed msg)
    then show ?thesis using eq by (simp add: handle_job_failure)
  next
    case (sink_failed r msg)
    then show ?thesis using eq by (simp add: handle_sink_failure)
  next
    case (appended r)
    then show ?thesis using eq by (simp add: handle_success)
  qed
qed

lemma drain_csv_log_independent:
  "csv st = csv st2 \<Longrightarrow>
   map_option csv (drain (loop_body writer summarizer xs) pending evs st)
     = map_option csv (drain (loop_body writer summarizer xs) pending evs st2)"
proof (induction "loop_body writer summarizer xs" pending evs st arbitrary: st2 rule: drain.induct)
  case (1 evs st)
  then show ?case by simp
next
  case (2 p ps st)
  then show ?case by simp
next
  case (3 p ps evs st)
  then show ?case by simp
next
  case (4 p ps i evs st)
  show ?case
  proof (cases "i \<in> set (p # ps)")
    case True
    have "csv (handle_completion writer summarizer (xs ! i) st)
          = csv (handle_completion writer summarizer (xs ! i) st2)"
      using "4.prems" by (rule handle_csv_log_independent)
    from "4.hyps" [OF True this] True show ?thesis
      by simp
  next
    case False
    then show ?thesis by simp
  qed
qed

lemma abandoned_subset: "set (abandoned pending evs) \<subseteq> set pending"
proof (induction pending evs rule: abandoned.induct)
  case (4 p ps i evs)
  then show ?case
    using set_remove1_subset [of i "p # ps"] by (auto split: if_splits)
qed simp_all

lemma length_filter_remove1:
  "i \<in> set xs \<Longrightarrow> distinct xs \<Longrightarrow>
   length (filter P xs) = length (filter P (remove1 i xs)) + (if P i then 1 else 0)"
  by (induction xs) auto

lemma handle_csv_grows:
  "\<exists>new. csv (handle_completion writer summarizer item st) = csv st @ new \<and>
     length new \<le> (if isl (future_result summarizer item) then 0 else 1)"
proof (cases rule: handle_cases [where summarizer = summarizer and item = item and writer = writer and st = st])
  case (job_failed msg)
  then show ?thesis by (simp add: handle_job_failure)
next
  case (sink_failed r msg)
  then show ?thesis by (simp add: handle_sink_failure)
next
  case (appended r)
  then show ?thesis by (simp add: handle_success)
qed

lemma drain_rows:
  "distinct pending \<Longrightarrow>
   drain (loop_body writer summarizer xs) pending evs st = Some st' \<Longrightarrow>
   \<exists>new. csv st' = csv st @ new \<and>
     length new \<le> length (filter (\<lambda>j. \<not> isl (future_result summarizer (xs ! j))
                                      \<and> j \<notin> set (abandoned pending evs)) pending)"
proof (induction "loop_body writer summarizer xs" pending evs st rule: drain.induct)
  case (1 evs st)
  then show ?case by simp
next
  case (2 p ps st)
  then show ?case by simp
next
  case (3 p ps evs st)
  then show ?case by auto
next
  case (4 p ps i evs st)
  let ?pending = "p # ps"
  let ?rest = "remove1 i ?pending"
  let ?P = "\<lambda>j. \<not> isl (future_result summarizer (xs ! j)) \<and> j \<notin> set (abandoned ?rest evs)"
  from "4.prems"(2) have i: "i \<in> set ?pending"
    by (auto split: if_splits)
  with "4.prems"(2)
  have run: "drain (loop_body writer summarizer xs) ?rest evs
               (handle_completion writer summarizer (xs ! i) st) = Some st'"
    by simp
  have d: "distinct ?rest"
    using "4.prems"(1) by (rule distinct_remove1)
  from "4.hyps" [OF i d run] obtain new2 where
    n2: "csv st' = csv (handle_completion writer summarizer (xs ! i) st) @ new2"
        "length new2 \<le> length (filter ?P ?rest)"
    by blast
  obtain new1 where
    n1: "csv (handle_completion writer summarizer (xs ! i) st) = csv st @ new1"
        "length new1 \<le> (if isl (future_result summarizer (xs ! i)) then 0 else 1)"
    using handle_csv_grows by blast
  have "i \<notin> set ?rest"
    using "4.prems"(1) by (simp only: set_remove1_eq) simp
  then have "i \<notin> set (abandoned ?rest evs)"
    using abandoned_subset by blast
  then have Pi: "?P i \<longleftrightarrow> \<not> isl (future_result summarizer (xs ! i))"
    by simp
  have ab: "abandoned ?pending (Completed i # evs) = abandoned ?rest evs"
    using i by simp
  have "length (filter ?P ?pending) = length (filter ?P ?rest) + (if ?P i then 1 else 0)"
    using i "4.prems"(1) by (rule length_filter_remove1)
  with n1(2) n2(2) Pi have "length (new1 @ new2) \<le> length (filter ?P ?pending)"
    by (auto split: if_splits)
  moreover have "csv st' = csv st @ (new1 @ new2)"
    using n1(1) n2(1) by simp
  ultimately show ?case
    unfolding ab by blast
qed

text \<open>
  Claim C3.  For every batch that returns, the rows in the sink afterwards are the rows
  that were there before followed by the rows appended during the batch; the number of
  appended rows is at most the number of sections submitted, and it is strictly smaller
  when the job of some submitted section raises an error, or when some future is still
  pending when the loop is left (its job missed the deadline).
\<close>

theorem rows_bounded_by_sections:
  assumes "parallel_process_texts_in_threads xs summarizer writer evs st = Some st'"
  shows "prefix (csv st) (csv st') \<and>
         length (csv st') - length (csv st) \<le> length xs \<and>
         ((\<exists>i<length xs. isl (future_result summarizer (xs ! i)))
            \<or> abandoned [0 ..< length xs] evs \<noteq> []
          \<longrightarrow> length (csv st') - length (csv st) < length xs)"
proof -
  let ?pending = "[0 ..< length xs]"
  let ?P = "\<lambda>j. \<not> isl (future_result summarizer (xs ! j))
                \<and> j \<notin> set (abandoned ?pending evs)"
  from assms have "drain (loop_body writer summarizer xs) ?pending evs st = Some st'"
    by (simp add: parallel_process_texts_in_threads_def)
  with drain_rows [of ?pending writer summarizer xs evs st st'] obtain new where
    new: "csv st' = csv st @ new" "length new \<le> length (filter ?P ?pending)"
    by auto
  have le: "length (filter ?P ?pending) \<le> length xs"
    using length_filter_le [of ?P ?pending] by simp
  have strict: "length (filter ?P ?pending) < length xs" if "j \<in> set ?pending" "\<not> ?P j" for j
    using length_filter_less [of j ?pending ?P] that by simp
  have "length (filter ?P ?pending) < length xs"
    if "(\<exists>i<length xs. isl (future_result summarizer (xs ! i)))
        \<or> abandoned ?pending evs \<noteq> []"
    using that
  proof
    assume "\<exists>i<length xs. isl (future_result summarizer (xs ! i))"
    then obtain i where "i < length xs" "isl (future_result summarizer (xs ! i))"
      by blast
    then show ?thesis
      using strict [of i] by simp
  next
    assume "abandoned ?pending evs \<noteq> []"
    then obtain j where j: "j \<in> set (abandoned ?pending evs)"
      by (cases "abandoned ?pending evs") auto
    then have "j \<in> set ?pending"
      using abandoned_subset by blast
    with j show ?thesis
      using strict [of j] by simp
  qed
  then have "(\<exists>i<length xs. isl (future_result summarizer (xs ! i)))
               \<or> abandoned ?pending evs \<noteq> []
             \<longrightarrow> length new < length xs"
    using new(2) by (meson impI le_less_trans)
  moreover have "length new \<le> length xs"
    using new(2) le by (rule le_trans)
  moreover have "length (csv st') - length (csv st) = length new"
    by (simp add: new(1))
  moreover have "prefix (csv st) (csv st')"
    by (simp add: new(1))
  ultimately show ?thesis
    by presburger
qed

theorem rows_bounded_by_sections_witness:
  "parallel_process_texts_in_threads two_items (summarizer_failing_on body_a ''boom'')
     reliable_writer [Completed 1, Completed 0] empty_batch
   = Some \<lparr>csv = [row_of_b ''summary''],
           log = [(INFO, ''Row appended to CSV.''),
                  (WARNING, ''Error processing text: boom'')]\<rparr> \<and>
   isl (future_result (summarizer_failing_on body_a ''boom'') (two_items ! 0)) \<and>
   length [row_of_b ''summary''] - length (csv empty_batch) < length two_items"
proof -
  have run: "parallel_process_texts_in_threads two_items (summarizer_failing_on body_a ''boom'')
               reliable_writer [Completed 1, Completed 0] empty_batch
             = Some \<lparr>csv = [row_of_b ''summary''],
                     log = [(INFO, ''Row appended to CSV.''),
                            (WARNING, ''Error processing text: boom'')]\<rparr>"
    by code_simp
  have f: "isl (future_result (summarizer_failing_on body_a ''boom'') (two_items ! 0))"
    by code_simp
  have n: "0 < length two_items"
    by (simp add: two_items_def)
  show ?thesis
    using rows_bounded_by_sections [OF run] run f n
    by auto
qed

lemma drain_collected:
  "distinct is \<Longrightarrow> set is \<subseteq> set pending \<Longrightarrow> distinct pending \<Longrightarrow>
   drain body pending (map Completed is @ rest) st
     = drain body (filter (\<lambda>j. j \<notin> set is) pending) rest (fold body is st)"
proof (induction "is" arbitrary: pending st)
  case Nil
  then show ?case by simp
next
  case (Cons i "is")
  from Cons.prems obtain p ps where p: "pending = p # ps"
    by (cases pending) auto
  have i: "i \<in> set pending" "i \<notin> set is"
    using Cons.prems by auto
  have sub: "set is \<subseteq> set (remove1 i pending)"
    using Cons.prems i by (auto simp: in_set_remove1)
  have "drain body pending (map Completed (i # is) @ rest) st
        = drain body (remove1 i pending) (map Completed is @ rest) (body i st)"
    using i(1) by (simp add: p)
  also have "\<dots> = drain body (filter (\<lambda>j. j \<notin> set is) (remove1 i pending)) rest
                     (fold body is (body i st))"
    using Cons.prems sub by (intro Cons.IH) auto
  also have "filter (\<lambda>j. j \<notin> set is) (remove1 i pending)
             = filter (\<lambda>j. j \<notin> set (i # is)) pending"
    using Cons.prems(3)
    by (auto simp: distinct_remove1_removeAll removeAll_filter_not_eq intro: filter_cong)
  finally show ?case by simp
qed

lemma timeout_notices_logging_other:
  "(lvl, msg) \<noteq> timeout_notice \<Longrightarrow> timeout_notices (logging lvl msg st) = timeout_notices st"
  by (auto simp: timeout_notices_def)

lemma timeout_notices_logging_notice:
  "timeout_notices (logging (fst timeout_notice) (snd timeout_notice) st)
     = Suc (timeout_notices st)"
  by (simp add: timeout_notices_def)

lemma timeout_notices_csv_update [simp]:
  "timeout_notices (st\<lparr>csv := rows\<rparr>) = timeout_notices st"
  by (simp add: timeout_notices_def)

lemma error_entry_not_notice:
  "(WARNING, ''Error processing text: '' @ msg) \<noteq> timeout_notice"
  by (simp add: timeout_notice_def)

lemma timeout_notices_handle:
  "timeout_notices (handle_completion writer summarizer item st) = timeout_notices st"
proof (cases rule: handle_cases [where summarizer = summarizer and item = item and writer = writer and st = st])
  case (job_failed msg)
  show ?thesis
    unfolding handle_job_failure [OF job_failed]
    by (rule timeout_notices_logging_other) (rule error_entry_not_notice)
next
  case (sink_failed r msg)
  show ?thesis
    unfolding handle_sink_failure [of summarizer item r writer st msg, OF sink_failed]
    by (rule timeout_notices_logging_other) (rule error_entry_not_notice)
next
  case (appended r)
  have "(INFO, ''Row appended to CSV.'') \<noteq> timeout_notice"
    by (simp add: timeout_notice_def)
  with appended show ?thesis
    by (simp add: handle_success timeout_notices_logging_other)
qed

lemma timeout_notices_fold:
  "timeout_notices (fold (loop_body writer summarizer xs) is st) = timeout_notices st"
  by (induction "is" arbitrary: st) (simp_all add: timeout_notices_handle)

lemma some_future_pending:
  assumes "distinct is" "set is \<subseteq> {..<n}" "length is < n"
  shows "filter (\<lambda>j. j \<notin> set is) [0 ..< n] \<noteq> []"
proof -
  have c: "card (set is) < n"
    using assms(1,3) by (simp add: distinct_card)
  have "set is \<noteq> {..<n}"
  proof
    assume "set is = {..<n}"
    then have "card (set is) = n"
      by simp
    with c show False
      by simp
  qed
  with assms(2) have "set is \<subset> {..<n}"
    by blast
  then obtain j where j: "j \<in> {..<n}" "j \<notin> set is"
    by blast
  then have "j \<in> set (filter (\<lambda>j. j \<notin> set is) [0 ..< n])"
    by simp
  then show ?thesis
    by (metis empty_iff empty_set)
qed

text \<open>
  Claim C7.  When the iterator finds the deadline passed while some future is still
  pending, after having yielded the distinct futures \<open>is\<close>, the batch returns: its state is
  the state after the collected completions plus one timeout notice, so the rows are those
  of the collected completions and the log holds exactly one notice more than before.
  Whatever completes after the deadline (\<open>late\<close>) has no influence on the result: it is
  neither collected nor written.
\<close>

theorem deadline_stops_collection:
  assumes "distinct is" and "set is \<subseteq> {..<length xs}" and "length is < length xs"
  shows "\<exists>st'. parallel_process_texts_in_threads xs summarizer writer
                 (map Completed is @ DeadlinePassed # late) st = Some st' \<and>
           st' = logging (fst timeout_notice) (snd timeout_notice)
                   (fold (loop_body writer summarizer xs) is st) \<and>
           csv st' = csv (fold (loop_body writer summarizer xs) is st) \<and>
           timeout_notices st' = Suc (timeout_notices st) \<and>
           parallel_process_texts_in_threads xs summarizer writer
             (map Completed is @ [DeadlinePassed]) st = Some st'"
proof -
  let ?body = "loop_body writer summarizer xs"
  let ?left = "filter (\<lambda>j. j \<notin> set is) [0 ..< length xs]"
  let ?st' = "logging (fst timeout_notice) (snd timeout_notice) (fold ?body is st)"
  obtain p ps where left: "?left = p # ps"
    using some_future_pending [OF assms] by (cases ?left) auto
  have sub: "set is \<subseteq> set [0 ..< length xs]"
    using assms(2) by auto
  have run: "drain ?body [0 ..< length xs] (map Completed is @ DeadlinePassed # rest) st = Some ?st'"
    for rest
    using drain_collected [OF assms(1) sub, of ?body "DeadlinePassed # rest" st]
    by (simp add: left)
  have "timeout_notices ?st' = Suc (timeout_notices st)"
    by (simp add: timeout_notices_logging_notice timeout_notices_fold)
  with run [of late] run [of "[]"] show ?thesis
    by (simp add: parallel_process_texts_in_threads_def)
qed

theorem deadline_stops_collection_witness:
  "distinct [1::nat] \<and> set [1::nat] \<subseteq> {..<length two_items} \<and>
   length [1::nat] < length two_items \<and>
   (\<exists>st'. parallel_process_texts_in_threads two_items (constant_summarizer ''summary'')
            reliable_writer [Completed 1, DeadlinePassed, Completed 0] empty_batch = Some st' \<and>
          csv st' = [row_of_b ''summary''] \<and> timeout_notices st' = 1)"
proof -
  have a: "distinct [1::nat]" by simp
  have b: "set [1::nat] \<subseteq> {..<length two_items}" by (simp add: two_items_def)
  have c: "length [1::nat] < length two_items" by (simp add: two_items_def)
  have rows: "csv (fold (loop_body reliable_writer (constant_summarizer ''summary'') two_items)
                    [1] empty_batch) = [row_of_b ''summary'']"
    by code_simp
  have zero: "timeout_notices empty_batch = 0"
    by code_simp
  show ?thesis
    using deadline_stops_collection [OF a b c, of "constant_summarizer ''summary''"
        reliable_writer "[Completed 0]" empty_batch] a b c rows zero
    by auto
qed

text \<open>
  Claim C6 as stated fails in one respect: the warning logged for a failed job holds the
  exception's message only.  The section title is not part of the entry.
\<close>

theorem job_failure_log_omits_title_counterexample:
  "parallel_process_texts_in_threads [(''Flood Policy'', body_b, no_metadata)]
     (failing_summarizer ''boom'') reliable_writer [Completed 0] empty_batch
   = Some \<lparr>csv = [], log = [(WARNING, ''Error processing text: boom'')]\<rparr> \<and>
   \<not> py_in ''Flood Policy'' ''Error processing text: boom''"
  by code_simp

text \<open>
  Claim C6, amended.  When a job raises an error with message \<open>msg\<close>, the loop body logs
  the warning \<open>Error processing text: msg\<close> (without the section title), leaves the rows
  unchanged, and the drain goes on with the remaining futures and events; the rows written
  by the rest of the batch are the rows it would write had the failed future not been
  there.
\<close>

theorem job_failure_is_isolated:
  assumes "future_result summarizer (xs ! i) = Inl (Exception msg)" and "i \<in> set pending"
  shows "handle_completion writer summarizer (xs ! i) st
           = logging WARNING (''Error processing text: '' @ msg) st \<and>
         csv (handle_completion writer summarizer (xs ! i) st) = csv st \<and>
         drain (loop_body writer summarizer xs) pending (Completed i # evs) st
           = drain (loop_body writer summarizer xs) (remove1 i pending) evs
               (logging WARNING (''Error processing text: '' @ msg) st) \<and>
         map_option csv (drain (loop_body writer summarizer xs) pending (Completed i # evs) st)
           = map_option csv (drain (loop_body writer summarizer xs) (remove1 i pending) evs st)"
proof -
  let ?st2 = "logging WARNING (''Error processing text: '' @ msg) st"
  have h: "handle_completion writer summarizer (xs ! i) st = ?st2"
    using assms(1) by (rule handle_job_failure)
  obtain p ps where p: "pending = p # ps"
    using assms(2) by (cases pending) auto
  have d: "drain (loop_body writer summarizer xs) pending (Completed i # evs) st
           = drain (loop_body writer summarizer xs) (remove1 i pending) evs ?st2"
    using assms(2) h by (simp add: p)
  have "map_option csv (drain (loop_body writer summarizer xs) (remove1 i pending) evs ?st2)
        = map_option csv (drain (loop_body writer summarizer xs) (remove1 i pending) evs st)"
    by (rule drain_csv_log_independent) simp
  with h d show ?thesis
    by simp
qed

theorem job_failure_is_isolated_witness:
  "future_result (summarizer_failing_on body_a ''boom'') (two_items ! 0)
     = Inl (Exception ''boom'') \<and>
   drain (loop_body reliable_writer (summarizer_failing_on body_a ''boom'') two_items)
     [0, 1] [Completed 0, Completed 1] empty_batch
   = Some \<lparr>csv = [row_of_b ''summary''],
           log = [(WARNING, ''Error processing text: boom''),
                  (INFO, ''Row appended to CSV.'')]\<rparr>"
proof -
  have f: "future_result (summarizer_failing_on body_a ''boom'') (two_items ! 0)
             = Inl (Exception ''boom'')"
    by code_simp
  have i: "(0::nat) \<in> set [0, 1]"
    by simp
  have rest: "drain (loop_body reliable_writer (summarizer_failing_on body_a ''boom'') two_items)
                [1] [Completed 1]
                (logging WARNING (''Error processing text: '' @ ''boom'') empty_batch)
              = Some \<lparr>csv = [row_of_b ''summary''],
                      log = [(WARNING, ''Error processing text: boom''),
                             (INFO, ''Row appended to CSV.'')]\<rparr>"
    by code_simp
  show ?thesis
    using job_failure_is_isolated [OF f i, of reliable_writer empty_batch "[Completed 1]"] f rest
    by simp
qed

text \<open>
  Claim C2 as stated fails: the append is executed inside the inner \<open>try\<close>, so an exception
  raised by the sink is caught by the same handler as a job's exception.  In the run below
  the append of the first row fails; the batch goes on and appends the second row.
\<close>

theorem sink_failure_not_escalated_counterexample:
  "parallel_process_texts_in_threads two_items (constant_summarizer ''summary'')
     (writer_rejecting ''A'' ''disk full'') [Completed 0, Completed 1] empty_batch
   = Some \<lparr>csv = [row_of_b ''summary''],
           log = [(WARNING, ''Error processing text: disk full''),
                  (INFO, ''Row appended to CSV.'')]\<rparr>"
  by code_simp

text \<open>
  Claim C2, amended.  A failure of the sink's append for a completed job is handled like a
  failure inside the job: the exception is caught by the loop body, logged as the warning
  \<open>Error processing text: msg\<close>, the row is dropped and the drain goes on with the remaining
  futures and events.  It is not escalated and does not end the batch.
\<close>

theorem sink_failure_is_logged_and_skipped:
  assumes "future_result summarizer (xs ! i) = Inr r"
    and "writer (csv st) (row_data r) = Some (Exception msg)" and "i \<in> set pending"
  shows "save_to_csv_incremental writer (row_data r) st = Inl (Exception msg) \<and>
         handle_completion writer summarizer (xs ! i) st
           = logging WARNING (''Error processing text: '' @ msg) st \<and>
         csv (handle_completion writer summarizer (xs ! i) st) = csv st \<and>
         drain (loop_body writer summarizer xs) pending (Completed i # evs) st
           = drain (loop_body writer summarizer xs) (remove1 i pending) evs
               (logging WARNING (''Error processing text: '' @ msg) st)"
proof -
  let ?st2 = "logging WARNING (''Error processing text: '' @ msg) st"
  have h: "handle_completion writer summarizer (xs ! i) st = ?st2"
    using assms(1,2) by (rule handle_sink_failure)
  obtain p ps where p: "pending = p # ps"
    using assms(3) by (cases pending) auto
  have d: "drain (loop_body writer summarizer xs) pending (Completed i # evs) st
           = drain (loop_body writer summarizer xs) (remove1 i pending) evs ?st2"
    using assms(3) h by (simp add: p)
  with h assms(2) show ?thesis
    by (simp add: save_to_csv_incremental_def)
qed

theorem sink_failure_is_logged_and_skipped_witness:
  "future_result (constant_summarizer ''summary'') (two_items ! 0)
     = Inr (''A'', body_a, ''summary'', no_correlation, no_metadata) \<and>
   writer_rejecting ''A'' ''disk full'' (csv empty_batch)
     (row_data (''A'', body_a, ''summary'', no_correlation, no_metadata))
     = Some (Exception ''disk full'') \<and>
   drain (loop_body (writer_rejecting ''A'' ''disk full'') (constant_summarizer ''summary'') two_items)
     [0, 1] [Completed 0, Completed 1] empty_batch
   = Some \<lparr>csv = [row_of_b ''summary''],
           log = [(WARNING, ''Error processing text: disk full''),
                  (INFO, ''Row appended to CSV.'')]\<rparr>"
proof -
  have f: "future_result (constant_summarizer ''summary'') (two_items ! 0)
             = Inr (''A'', body_a, ''summary'', no_correlation, no_metadata)"
    by code_simp
  have w: "writer_rejecting ''A'' ''disk full'' (csv empty_batch)
             (row_data (''A'', body_a, ''summary'', no_correlation, no_metadata))
           = Some (Exception ''disk full'')"
    by code_simp
  have i: "(0::nat) \<in> set [0, 1]"
    by simp
  have rest: "drain (loop_body (writer_rejecting ''A'' ''disk full'')
                       (constant_summarizer ''summary'') two_items)
                [1] [Completed 1]
                (logging WARNING (''Error processing text: '' @ ''disk full'') empty_batch)
              = Some \<lparr>csv = [row_of_b ''summary''],
                      log = [(WARNING, ''Error processing text: disk full''),
                             (INFO, ''Row appended to CSV.'')]\<rparr>"
    by code_simp
  show ?thesis
    using sink_failure_is_logged_and_skipped
      [where summarizer = "constant_summarizer ''summary''" and xs = two_items and i = 0
         and r = "(''A'', body_a, ''summary'', no_correlation, no_metadata)"
         and writer = "writer_rejecting ''A'' ''disk full''" and st = empty_batch
         and msg = "''disk full''" and pending = "[0, 1]" and evs = "[Completed 1]",
       OF f w i] f w rest
    by simp
qed

end
